theory Spec2Isabelle
  imports Complex_Main
begin

section \<open>Basic types\<close>

text \<open>
  The typedefs of \<^verbatim>\<open>maxsum/types.h\<close> are not among the sources. Following the
  data model of the specification, a \<^verbatim>\<open>VarID\<close> is an opaque integer identifier, a
  \<^verbatim>\<open>ValIndex\<close> is a non-negative integer, and \<^verbatim>\<open>ValType\<close> is a real scalar (every value is
  an ordinary number: no NaN, no infinity).

  \<^verbatim>\<open>ValIndex\<close> is a fixed-width integer type. Its width is not known without the
  typedef, so the number of its value bits is a parameter, \<open>bits\<close>, of the constructor
  and of the operations that call it: the product of the sizes that the constructor
  accumulates in a \<^verbatim>\<open>ValIndex\<close> wraps around modulo \<open>2 ^ bits\<close>. The other index
  computations (linear indices, the counters of an iterator) stay below the length of
  a value array that exists, and are written on \<open>nat\<close>.
\<close>

type_synonym VarID = nat
type_synonym ValIndex = nat
type_synonym ValType = real

text \<open>
  The error kinds. \<open>UnknownVariable\<close> and \<open>BadDomain\<close> are the exceptions named in
  \<^verbatim>\<open>DiscreteFunction.h\<close>; \<open>OutOfRange\<close> stands for a failed \<^verbatim>\<open>assert\<close> of the
  accessors (and for an out-of-range access to the value array);
  \<open>DuplicateConflict\<close> is the failure of a registration.
\<close>

datatype error = UnknownVariable | BadDomain | OutOfRange | DuplicateConflict

section \<open>Variable registry\<close>

type_synonym registry = "VarID \<rightharpoonup> ValIndex"

text \<open>
  Modelled from the spec: the body of \<^verbatim>\<open>registerVariable\<close> (\<^verbatim>\<open>register.h\<close>) is missing;
  only the declaration of \<^verbatim>\<open>registerVariable_ms\<close> in \<^verbatim>\<open>maxsum_c.h\<close> is present.
  Specification 4.1: \<^emph>\<open>inserts (var, size) if absent; if present with equal size,
  succeeds; otherwise fails without mutation\<close>. The process-wide registry is passed
  explicitly; the result is the error or the registry after the call.
\<close>

definition registerVariable :: "registry \<Rightarrow> VarID \<Rightarrow> ValIndex \<Rightarrow> error + registry" where
  "registerVariable reg var siz =
     (case reg var of
        None \<Rightarrow> Inr (reg(var \<mapsto> siz))
      | Some s \<Rightarrow> if s = siz then Inr reg else Inl DuplicateConflict)"

text \<open>
  Modelled from the spec: the C surface of the registration, whose body is missing.
  \<^verbatim>\<open>maxsum_c.h\<close> documents \<^emph>\<open>returns -1 if this variable is already registered, but
  with a different domain size\<close>; the value returned on success is not documented there
  and is taken to be 0, as documented for the sibling \<^verbatim>\<open>ind2sub_ms\<close>. The second
  component is the registry after the call.
\<close>

definition registerVariable_ms :: "registry \<Rightarrow> VarID \<Rightarrow> ValIndex \<Rightarrow> int \<times> registry" where
  "registerVariable_ms reg var siz =
     (case registerVariable reg var siz of
        Inl e \<Rightarrow> (- 1, reg)
      | Inr reg' \<Rightarrow> (0, reg'))"

text \<open>
  Modelled from the spec: \<^verbatim>\<open>getDomainSize\<close>, whose body is missing. Specification 4.1:
  \<^emph>\<open>domainSize(var) fails with UnknownVariable if absent\<close>.
\<close>

definition getDomainSize :: "registry \<Rightarrow> VarID \<Rightarrow> error + ValIndex" where
  "getDomainSize reg var =
     (case reg var of None \<Rightarrow> Inl UnknownVariable | Some s \<Rightarrow> Inr s)"

text \<open>
  Modelled from the spec: \<^verbatim>\<open>isRegistered\<close>, whose body is missing. Specification 4.1:
  \<^emph>\<open>isRegistered(var)\<close> tells whether the registry has an entry for the variable.
\<close>

definition isRegistered :: "registry \<Rightarrow> VarID \<Rightarrow> bool" where
  "isRegistered reg var = (reg var \<noteq> None)"

section \<open>Index arithmetic\<close>

text \<open>
  Modelled from the spec: \<^verbatim>\<open>sub2ind\<close> is declared in a header that is missing.
  Specification 4.2: \<^emph>\<open>sub2ind(sizes, sub) = \<Sigma>_k sub[k] \<cdot> \<Pi>_{j<k} s_j\<close>.
\<close>

definition sub2ind :: "ValIndex list \<Rightarrow> ValIndex list \<Rightarrow> ValIndex" where
  "sub2ind sizes sub = (\<Sum>k\<leftarrow>[0..<length sizes]. sub ! k * prod_list (take k sizes))"

text \<open>A tuple of subindices is in range when it is parallel to the sizes and below them.\<close>

definition in_range :: "ValIndex list \<Rightarrow> ValIndex list \<Rightarrow> bool" where
  "in_range sizes sub = list_all2 (\<lambda>i s. i < s) sub sizes"

text \<open>
  The restriction of a tuple \<open>x\<close> over the variables \<open>outerVars\<close> to the variables
  \<open>vs\<close>: the coordinate of each variable of \<open>vs\<close>, in the order of \<open>vs\<close>. It is used
  only where every variable of \<open>vs\<close> occurs in \<open>outerVars\<close>.
\<close>

definition coord :: "VarID list \<Rightarrow> ValIndex list \<Rightarrow> VarID \<Rightarrow> ValIndex" where
  "coord outerVars x v = (case map_of (zip outerVars x) v of Some i \<Rightarrow> i | None \<Rightarrow> 0)"

definition restrict_tuple :: "VarID list \<Rightarrow> ValIndex list \<Rightarrow> VarID list \<Rightarrow> ValIndex list" where
  "restrict_tuple outerVars x vs = map (coord outerVars x) vs"

section \<open>DiscreteFunction\<close>

record DiscreteFunction =
  vars_i :: "VarID list"
  size_i :: "ValIndex list"
  values_i :: "ValType list"

text \<open>
  The class invariant of the specification, relative to the registry: the variables
  are strictly ascending, the cached sizes are the registered ones, every size is
  positive, and there is one value for each tuple.
\<close>

definition wf_fun :: "registry \<Rightarrow> DiscreteFunction \<Rightarrow> bool" where
  "wf_fun reg f \<longleftrightarrow>
     sorted (vars_i f) \<and> distinct (vars_i f) \<and>
     map reg (vars_i f) = map Some (size_i f) \<and>
     0 \<notin> set (size_i f) \<and>
     length (values_i f) = prod_list (size_i f)"

definition domainSize :: "DiscreteFunction \<Rightarrow> ValIndex" where
  "domainSize f = length (values_i f)"

subsection \<open>Construction\<close>

text \<open>
  The loop of the constructor \<^verbatim>\<open>DiscreteFunction(VarIt begin, VarIt end, ValType val)\<close>:
  it caches the size of each variable (\<^verbatim>\<open>getDomainSize\<close> throws for an unregistered one)
  and multiplies the sizes into \<^verbatim>\<open>totalSize\<close>. The statement \<^verbatim>\<open>totalSize *= size_i[k]\<close>
  is a multiplication in \<^verbatim>\<open>ValIndex\<close>, which wraps around.
\<close>

fun cacheSizes ::
  "nat \<Rightarrow> registry \<Rightarrow> VarID list \<Rightarrow> ValIndex list \<Rightarrow> ValIndex
     \<Rightarrow> error + (ValIndex list \<times> ValIndex)"
where
  "cacheSizes bits reg [] sizes totalSize = Inr (sizes, totalSize)"
| "cacheSizes bits reg (v # vs) sizes totalSize =
     (case getDomainSize reg v of
        Inl e \<Rightarrow> Inl e
      | Inr s \<Rightarrow> cacheSizes bits reg vs (sizes @ [s]) ((totalSize * s) mod 2 ^ bits))"

text \<open>
  The low \<open>bits\<close> bits of a number, bit by bit. It is the remainder modulo \<open>2 ^ bits\<close>
  (lemma \<open>lowBits_mod\<close>) and serves to evaluate \<open>cacheSizes\<close> without building the
  number \<open>2 ^ bits\<close>.
\<close>

fun lowBits :: "nat \<Rightarrow> nat \<Rightarrow> nat" where
  "lowBits 0 n = 0"
| "lowBits (Suc b) n = n mod 2 + 2 * lowBits b (n div 2)"

text \<open>
  The constructor: the variable list is copied and sorted with \<^verbatim>\<open>std::sort\<close> (nothing
  removes repeated ids), the sizes are cached, and \<^verbatim>\<open>totalSize\<close> cells are set to \<open>val\<close>.
  The first argument is the number of value bits of \<^verbatim>\<open>ValIndex\<close>.
\<close>

definition newDiscreteFunction ::
  "nat \<Rightarrow> registry \<Rightarrow> VarID list \<Rightarrow> ValType \<Rightarrow> error + DiscreteFunction"
where
  "newDiscreteFunction bits reg vs val =
     (let sortedVars = sort vs in
      case cacheSizes bits reg sortedVars [] 1 of
        Inl e \<Rightarrow> Inl e
      | Inr (sizes, totalSize) \<Rightarrow>
          Inr \<lparr>vars_i = sortedVars, size_i = sizes, values_i = replicate totalSize val\<rparr>)"

subsection \<open>Element access\<close>

text \<open>
  \<^verbatim>\<open>operator()(ValIndex ind)\<close>, reading and writing. An index outside the value array
  is the error \<open>OutOfRange\<close>; a failed write leaves the function as it was.
\<close>

definition at_ind :: "DiscreteFunction \<Rightarrow> ValIndex \<Rightarrow> error + ValType" where
  "at_ind f ind = (if ind < length (values_i f) then Inr (values_i f ! ind) else Inl OutOfRange)"

definition assign ::
  "DiscreteFunction \<Rightarrow> ValIndex \<Rightarrow> ValType \<Rightarrow> error option \<times> DiscreteFunction"
where
  "assign f ind v =
     (if ind < length (values_i f) then (None, f\<lparr>values_i := (values_i f)[ind := v]\<rparr>)
      else (Some OutOfRange, f))"

text \<open>\<^verbatim>\<open>operator()(IndIt begin, IndIt end)\<close>: access by the function's own subindices.\<close>

definition at_sub :: "DiscreteFunction \<Rightarrow> ValIndex list \<Rightarrow> error + ValType" where
  "at_sub f sub = at_ind f (sub2ind (size_i f) sub)"

text \<open>
  The \<^verbatim>\<open>while\<close> loop of \<^verbatim>\<open>operator()(VarIt, VarIt, IndIt, IndIt)\<close>. The arguments are
  what is left of the function's own variables and sizes (\<^verbatim>\<open>myV\<close>, \<^verbatim>\<open>siz\<close>) and of the
  given variables and subindices (\<^verbatim>\<open>inV\<close>, \<^verbatim>\<open>sub\<close>), then \<^verbatim>\<open>skipSize\<close> and \<^verbatim>\<open>index\<close>.
  The loop stops when \<^verbatim>\<open>myV\<close> or \<^verbatim>\<open>inV\<close> is used up; the assertions after it want
  \<^verbatim>\<open>myV\<close> and \<^verbatim>\<open>siz\<close> to be used up.
\<close>

fun superLoop ::
  "VarID list \<Rightarrow> ValIndex list \<Rightarrow> VarID list \<Rightarrow> ValIndex list \<Rightarrow> ValIndex \<Rightarrow> ValIndex
     \<Rightarrow> error + ValIndex"
where
  "superLoop (v # myV) (sz # siz) (w # inV) (s # sub) skipSize index =
     (if v \<noteq> w then superLoop (v # myV) (sz # siz) inV sub skipSize index
      else if s < sz then superLoop myV siz inV sub (skipSize * sz) (index + s * skipSize)
      else Inl OutOfRange)"
| "superLoop [] [] inV sub skipSize index = Inr index"
| "superLoop myV siz inV sub skipSize index = Inl OutOfRange"

text \<open>
  The linear index that \<^verbatim>\<open>operator()(VarIt, VarIt, IndIt, IndIt)\<close> computes, with the
  assertions before and after the loop.
\<close>

definition superIndex ::
  "DiscreteFunction \<Rightarrow> VarID list \<Rightarrow> ValIndex list \<Rightarrow> error + ValIndex"
where
  "superIndex f outerVars outerSub =
     (if length outerVars \<noteq> length outerSub \<or> length (vars_i f) \<noteq> length (size_i f)
         \<or> length outerVars < length (vars_i f)
      then Inl OutOfRange
      else case superLoop (vars_i f) (size_i f) outerVars outerSub 1 0 of
             Inl e \<Rightarrow> Inl e
           | Inr index \<Rightarrow> if index < length (values_i f) then Inr index else Inl OutOfRange)"

text \<open>The accessor returns a reference to the cell: it is read, or written.\<close>

definition at_super ::
  "DiscreteFunction \<Rightarrow> VarID list \<Rightarrow> ValIndex list \<Rightarrow> error + ValType"
where
  "at_super f outerVars outerSub =
     (case superIndex f outerVars outerSub of
        Inl e \<Rightarrow> Inl e
      | Inr index \<Rightarrow> Inr (values_i f ! index))"

definition assign_super ::
  "DiscreteFunction \<Rightarrow> VarID list \<Rightarrow> ValIndex list \<Rightarrow> ValType
     \<Rightarrow> error option \<times> DiscreteFunction"
where
  "assign_super f outerVars outerSub v =
     (case superIndex f outerVars outerSub of
        Inl e \<Rightarrow> (Some e, f)
      | Inr index \<Rightarrow> (None, f\<lparr>values_i := (values_i f)[index := v]\<rparr>))"

subsection \<open>Comparison with a scalar\<close>

text \<open>
  The four loops \<^verbatim>\<open>for(int k=0; k<f.domainSize(); ++k)\<close> of the relational operators
  with the function on the left; \<open>k\<close> is the loop counter.
\<close>

function less_loop :: "DiscreteFunction \<Rightarrow> ValType \<Rightarrow> nat \<Rightarrow> bool" where
  "less_loop f v k =
     (if k < domainSize f
      then (if values_i f ! k \<ge> v then False else less_loop f v (Suc k))
      else True)"
  by pat_completeness auto
termination
  by (relation "measure (\<lambda>(f, v, k). domainSize f - k)") auto

function less_eq_loop :: "DiscreteFunction \<Rightarrow> ValType \<Rightarrow> nat \<Rightarrow> bool" where
  "less_eq_loop f v k =
     (if k < domainSize f
      then (if values_i f ! k > v then False else less_eq_loop f v (Suc k))
      else True)"
  by pat_completeness auto
termination
  by (relation "measure (\<lambda>(f, v, k). domainSize f - k)") auto

function greater_loop :: "DiscreteFunction \<Rightarrow> ValType \<Rightarrow> nat \<Rightarrow> bool" where
  "greater_loop f v k =
     (if k < domainSize f
      then (if values_i f ! k \<le> v then False else greater_loop f v (Suc k))
      else True)"
  by pat_completeness auto
termination
  by (relation "measure (\<lambda>(f, v, k). domainSize f - k)") auto

function greater_eq_loop :: "DiscreteFunction \<Rightarrow> ValType \<Rightarrow> nat \<Rightarrow> bool" where
  "greater_eq_loop f v k =
     (if k < domainSize f
      then (if values_i f ! k < v then False else greater_eq_loop f v (Suc k))
      else True)"
  by pat_completeness auto
termination
  by (relation "measure (\<lambda>(f, v, k). domainSize f - k)") auto

declare less_loop.simps [simp del] less_eq_loop.simps [simp del]
  greater_loop.simps [simp del] greater_eq_loop.simps [simp del]

text \<open>\<^verbatim>\<open>operator<\<close>, \<^verbatim>\<open>operator<=\<close>, \<^verbatim>\<open>operator>\<close>, \<^verbatim>\<open>operator>=\<close> on (function, scalar).\<close>

definition fun_less :: "DiscreteFunction \<Rightarrow> ValType \<Rightarrow> bool" where
  "fun_less f v = less_loop f v 0"

definition fun_less_eq :: "DiscreteFunction \<Rightarrow> ValType \<Rightarrow> bool" where
  "fun_less_eq f v = less_eq_loop f v 0"

definition fun_greater :: "DiscreteFunction \<Rightarrow> ValType \<Rightarrow> bool" where
  "fun_greater f v = greater_loop f v 0"

definition fun_greater_eq :: "DiscreteFunction \<Rightarrow> ValType \<Rightarrow> bool" where
  "fun_greater_eq f v = greater_eq_loop f v 0"

text \<open>
  The same operators on (scalar, function), each written in the source as a call of
  one of the four above: \<^verbatim>\<open>v >= f\<close> returns \<^verbatim>\<open>f < v\<close>, \<^verbatim>\<open>v > f\<close> returns \<^verbatim>\<open>f <= v\<close>,
  \<^verbatim>\<open>v <= f\<close> returns \<^verbatim>\<open>f > v\<close>, and \<^verbatim>\<open>v < f\<close> returns \<^verbatim>\<open>f >= v\<close>.
\<close>

definition scalar_greater_eq :: "ValType \<Rightarrow> DiscreteFunction \<Rightarrow> bool" where
  "scalar_greater_eq v f = fun_less f v"

definition scalar_greater :: "ValType \<Rightarrow> DiscreteFunction \<Rightarrow> bool" where
  "scalar_greater v f = fun_less_eq f v"

definition scalar_less_eq :: "ValType \<Rightarrow> DiscreteFunction \<Rightarrow> bool" where
  "scalar_less_eq v f = fun_greater f v"

definition scalar_less :: "ValType \<Rightarrow> DiscreteFunction \<Rightarrow> bool" where
  "scalar_less v f = fun_greater_eq f v"

section \<open>DomainIterator\<close>

text \<open>
  Modelled from the spec: the class \<^verbatim>\<open>DomainIterator\<close> (\<^verbatim>\<open>DomainIterator.h\<close>) is missing.
  Specification 4.4: the state is \<^emph>\<open>the target function's (vars, sizes), current sub
  tuple, current linear ind, a boolean for each variable indicating fixed status\<close>; the
  fixed values are the coordinates of the fixed variables in the sub tuple. The field
  \<open>it_finished\<close> records that \<^emph>\<open>the iterator has exhausted the free coordinates\<close>.
\<close>

record DomainIterator =
  it_vars :: "VarID list"
  it_sizes :: "ValIndex list"
  it_subInd :: "ValIndex list"
  it_ind :: ValIndex
  it_fixed :: "bool list"
  it_finished :: bool

text \<open>
  Modelled from the spec: a new iterator over the domain of a function stands at the
  first tuple (all coordinates zero), with no variable fixed.
\<close>

definition newDomainIterator :: "DiscreteFunction \<Rightarrow> DomainIterator" where
  "newDomainIterator f =
     \<lparr>it_vars = vars_i f, it_sizes = size_i f,
      it_subInd = replicate (length (vars_i f)) 0, it_ind = 0,
      it_fixed = replicate (length (vars_i f)) False, it_finished = False\<rparr>"

text \<open>
  Modelled from the spec: \<^emph>\<open>hasNext() is true iff the iterator has not exhausted the free
  coordinates\<close>.
\<close>

definition hasNext :: "DomainIterator \<Rightarrow> bool" where
  "hasNext it = (\<not> it_finished it)"

text \<open>
  Modelled from the spec: \<^emph>\<open>getInd() is the current linear index into the target's value
  array\<close>.
\<close>

definition getInd :: "DomainIterator \<Rightarrow> ValIndex" where
  "getInd it = it_ind it"

text \<open>Modelled from the spec: \<^emph>\<open>getSubInd() is the current coordinate tuple\<close>.\<close>

definition getSubInd :: "DomainIterator \<Rightarrow> ValIndex list" where
  "getSubInd it = it_subInd it"

text \<open>Modelled from the spec: \<^emph>\<open>getVars() is the target's variable list\<close>.\<close>

definition getVars :: "DomainIterator \<Rightarrow> VarID list" where
  "getVars it = it_vars it"

text \<open>
  Modelled from the spec: \<^emph>\<open>isFixed(var)\<close> tells whether the variable is one of the
  target's variables and is marked fixed.
\<close>

definition isFixed :: "DomainIterator \<Rightarrow> VarID \<Rightarrow> bool" where
  "isFixed it var = ((var, True) \<in> set (zip (it_vars it) (it_fixed it)))"

text \<open>Modelled from the spec: \<^emph>\<open>fixedCount()\<close> is the number of variables marked fixed.\<close>

definition fixedCount :: "DomainIterator \<Rightarrow> nat" where
  "fixedCount it = length (filter (\<lambda>b. b) (it_fixed it))"

text \<open>
  Modelled from the spec: \<^emph>\<open>treating the subindex as a mixed-radix counter with radices
  sizes, increment the free coordinates only (fixed coordinates never change)\<close>, the
  first free variable varying fastest. The arguments are the fixed flags, the sizes and
  the subindices; the result is the new subindices and the carry out of the last free
  coordinate, which means that the free coordinates are exhausted.
\<close>

fun increment :: "bool list \<Rightarrow> ValIndex list \<Rightarrow> ValIndex list \<Rightarrow> ValIndex list \<times> bool" where
  "increment (fx # fxs) (sz # szs) (s # ss) =
     (if fx then (let (r, carry) = increment fxs szs ss in (s # r, carry))
      else if Suc s < sz then (Suc s # ss, False)
      else (let (r, carry) = increment fxs szs ss in (0 # r, carry)))"
| "increment fxs szs ss = (ss, True)"

text \<open>
  Modelled from the spec: \<^emph>\<open>advance()\<close> (\<^verbatim>\<open>operator++\<close> in the source's loops) increments
  the free coordinates and recomputes the linear index; when nothing is left the
  iterator is finished.
\<close>

definition advance :: "DomainIterator \<Rightarrow> DomainIterator" where
  "advance it =
     (let (sub, carry) = increment (it_fixed it) (it_sizes it) (it_subInd it) in
      it\<lparr>it_subInd := sub, it_ind := sub2ind (it_sizes it) sub, it_finished := carry\<rparr>)"

text \<open>
  Modelled from the spec: \<^emph>\<open>pin a set of variables to values; pinned coordinates are set
  to the given value and marked fixed. If any pinned variable is absent from the
  target's domain, it is silently ignored.\<close>
\<close>

definition condition_it :: "DomainIterator \<Rightarrow> VarID list \<Rightarrow> ValIndex list \<Rightarrow> DomainIterator" where
  "condition_it it vs vals =
     (let pinned = map_of (zip vs vals);
          sub = map2 (\<lambda>v s. case pinned v of Some x \<Rightarrow> x | None \<Rightarrow> s) (it_vars it) (it_subInd it);
          fixed = map2 (\<lambda>v b. b \<or> pinned v \<noteq> None) (it_vars it) (it_fixed it)
      in it\<lparr>it_subInd := sub, it_ind := sub2ind (it_sizes it) sub, it_fixed := fixed\<rparr>)"

text \<open>Modelled from the spec: \<^emph>\<open>pin variables using another iterator's current tuple\<close>.\<close>

definition condition_on :: "DomainIterator \<Rightarrow> DomainIterator \<Rightarrow> DomainIterator" where
  "condition_on it other = condition_it it (getVars other) (getSubInd other)"

text \<open>
  The number of calls of \<^const>\<open>advance\<close> before the free coordinates are exhausted; it
  bounds the loops over an iterator.
\<close>

fun stepsLeft :: "bool list \<Rightarrow> ValIndex list \<Rightarrow> ValIndex list \<Rightarrow> nat" where
  "stepsLeft (fx # fxs) (sz # szs) (s # ss) =
     (if fx then stepsLeft fxs szs ss
      else (sz - Suc s) + max 1 sz * stepsLeft fxs szs ss)"
| "stepsLeft fxs szs ss = 0"

definition it_measure :: "DomainIterator \<Rightarrow> nat" where
  "it_measure it =
     (if it_finished it then 0
      else Suc (stepsLeft (it_fixed it) (it_sizes it) (it_subInd it)))"

text \<open>
  The loops of the source over an iterator all have the shape
  \<^verbatim>\<open>while(it.hasNext()) { body; ++it; }\<close>, where the body reads the iterator and changes
  a local state (a function under construction, or an accumulator). A body that fails
  ends the loop with its error and the state it left.
\<close>

function it_loop ::
  "(DomainIterator \<Rightarrow> 's \<Rightarrow> error option \<times> 's) \<Rightarrow> DomainIterator \<Rightarrow> 's \<Rightarrow> error option \<times> 's"
where
  "it_loop body it s =
     (if hasNext it
      then (case body it s of
              (Some e, s') \<Rightarrow> (Some e, s')
            | (None, s') \<Rightarrow> it_loop body (advance it) s')
      else (None, s))"
  by pat_completeness auto
termination
proof (relation "measure (\<lambda>(body, it, s). it_measure it)")
  show "wf (measure (\<lambda>(body, it, s). it_measure it))"
    by simp
next
  fix body :: "DomainIterator \<Rightarrow> 's \<Rightarrow> error option \<times> 's"
  fix it :: DomainIterator and s :: 's and x1 :: "error option" and x2 :: 's
  assume next_it: "hasNext it"
  have step: "stepsLeft fxs szs ss = Suc (stepsLeft fxs szs ss')"
    if "increment fxs szs ss = (ss', False)" for fxs szs ss ss'
    using that
  proof (induction fxs szs ss arbitrary: ss' rule: increment.induct)
    case (1 fx fxs sz szs s ss)
    show ?case
    proof (cases "fx \<or> \<not> Suc s < sz")
      case False
      with "1.prems" show ?thesis by auto
    next
      case True
      obtain r c where rc: "increment fxs szs ss = (r, c)"
        by (cases "increment fxs szs ss")
      from True rc "1.prems" have c: "c = False" and ss': "ss' = (if fx then s else 0) # r"
        by (auto split: if_splits)
      from rc c have ih: "stepsLeft fxs szs ss = Suc (stepsLeft fxs szs r)"
        using True "1.IH" by (cases fx) auto
      show ?thesis
      proof (cases fx)
        case True
        with ih ss' show ?thesis by simp
      next
        case False
        with True have "sz - Suc s = 0" by simp
        with False ih ss' show ?thesis
          by (cases "sz = 0") (simp_all add: max_def algebra_simps)
      qed
    qed
  qed simp_all
  obtain sub carry where inc: "increment (it_fixed it) (it_sizes it) (it_subInd it) = (sub, carry)"
    by (cases "increment (it_fixed it) (it_sizes it) (it_subInd it)")
  have "it_measure (advance it) < it_measure it"
  proof (cases carry)
    case True
    with inc next_it show ?thesis
      by (simp add: it_measure_def advance_def hasNext_def)
  next
    case False
    with inc step [of "it_fixed it" "it_sizes it" "it_subInd it" sub] next_it show ?thesis
      by (simp add: it_measure_def advance_def hasNext_def)
  qed
  then show "((body, advance it, x2), (body, it, s)) \<in> measure (\<lambda>(body, it, s). it_measure it)"
    by simp
qed

declare it_loop.simps [simp del]

section \<open>Operations on functions\<close>

text \<open>
  \<^verbatim>\<open>DiscreteFunction::expand(VarInd begin, VarInd end)\<close>. The union of the domain with
  the given variables is built by \<^verbatim>\<open>std::sort\<close> and \<^verbatim>\<open>std::unique\<close>; nothing happens when
  it is not longer than the domain. Otherwise a function \<^verbatim>\<open>result\<close> over the union
  (initial value 0) is filled by a loop over its domain and swapped into \<^verbatim>\<open>*this\<close>. The
  model returns the new \<^verbatim>\<open>*this\<close>; on an error \<^verbatim>\<open>*this\<close> has not been changed. The
  first argument is the number of value bits of \<^verbatim>\<open>ValIndex\<close>, for the constructor.
\<close>

definition expand ::
  "nat \<Rightarrow> registry \<Rightarrow> DiscreteFunction \<Rightarrow> VarID list \<Rightarrow> error + DiscreteFunction"
where
  "expand bits reg this vs =
     (let newVar = remdups_adj (sort (vars_i this @ vs)) in
      if length newVar \<le> length (vars_i this) then Inr this
      else case newDiscreteFunction bits reg newVar 0 of
             Inl e \<Rightarrow> Inl e
           | Inr result0 \<Rightarrow>
               (case it_loop
                       (\<lambda>k result.
                          case at_super this newVar (getSubInd k) of
                            Inl e \<Rightarrow> (Some e, result)
                          | Inr v \<Rightarrow> assign result (getInd k) v)
                       (newDomainIterator result0) result0 of
                  (Some e, result) \<Rightarrow> Inl e
                | (None, result) \<Rightarrow> Inr result))"

text \<open>
  \<^verbatim>\<open>DiscreteFunction::condition(VarIt vBegin, VarIt vEnd, IndIt iBegin, IndIt iEnd)\<close>.
  An iterator over the domain is conditioned on the given variables; when it fixes
  nothing the function is left as it is. Otherwise a function \<^verbatim>\<open>result\<close> over the
  free variables is filled by a loop over the conditioned iterator and swapped into
  \<^verbatim>\<open>*this\<close>. The first argument is the number of value bits of \<^verbatim>\<open>ValIndex\<close>, for the
  constructor.
\<close>

definition condition ::
  "nat \<Rightarrow> registry \<Rightarrow> DiscreteFunction \<Rightarrow> VarID list \<Rightarrow> ValIndex list
     \<Rightarrow> error + DiscreteFunction"
where
  "condition bits reg this vs vals =
     (let it = condition_it (newDomainIterator this) vs vals in
      if fixedCount it = 0 then Inr this
      else let freeVars = filter (\<lambda>v. \<not> isFixed it v) (vars_i this) in
           case newDiscreteFunction bits reg freeVars 0 of
             Inl e \<Rightarrow> Inl e
           | Inr result0 \<Rightarrow>
               (case it_loop
                       (\<lambda>it result.
                          case at_ind this (getInd it) of
                            Inl e \<Rightarrow> (Some e, result)
                          | Inr v \<Rightarrow> assign_super result (getVars it) (getSubInd it) v)
                       it result0 of
                  (Some e, result) \<Rightarrow> Inl e
                | (None, result) \<Rightarrow> Inr result))"

text \<open>
  \<^verbatim>\<open>std::includes\<close> of the C++ standard library on two sorted ranges, as the standard
  gives it: the second range is walked while the first is searched for each of its
  elements.
\<close>

fun std_includes :: "VarID list \<Rightarrow> VarID list \<Rightarrow> bool" where
  "std_includes xs [] = True"
| "std_includes [] (y # ys) = False"
| "std_includes (x # xs) (y # ys) =
     (if y < x then False
      else if x < y then std_includes xs (y # ys)
      else std_includes xs ys)"

text \<open>
  \<^verbatim>\<open>marginal(inFun, aggregate, outFun)\<close>. The result is the error, if any, and
  \<^verbatim>\<open>outFun\<close> as the call leaves it. The exception \<^verbatim>\<open>BadDomainException\<close> is thrown before
  anything is written. For each tuple of \<^verbatim>\<open>outFun\<close> an iterator over \<^verbatim>\<open>inFun\<close> is
  conditioned on it; the first value seeds \<^verbatim>\<open>result\<close>, the remaining ones are
  aggregated into it, and \<^verbatim>\<open>result\<close> is stored in \<^verbatim>\<open>outFun\<close>.
\<close>

definition marginal ::
  "DiscreteFunction \<Rightarrow> (ValType \<Rightarrow> ValType \<Rightarrow> ValType) \<Rightarrow> DiscreteFunction
     \<Rightarrow> error option \<times> DiscreteFunction"
where
  "marginal inFun aggregate outFun =
     (if \<not> std_includes (vars_i inFun) (vars_i outFun) then (Some BadDomain, outFun)
      else it_loop
             (\<lambda>outIt out.
                let inIt = condition_on (newDomainIterator inFun) outIt in
                case at_ind inFun (getInd inIt) of
                  Inl e \<Rightarrow> (Some e, out)
                | Inr first \<Rightarrow>
                    (case it_loop
                            (\<lambda>inIt result.
                               case at_ind inFun (getInd inIt) of
                                 Inl e \<Rightarrow> (Some e, result)
                               | Inr v \<Rightarrow> (None, aggregate result v))
                            (advance inIt) first of
                       (Some e, result) \<Rightarrow> (Some e, out)
                     | (None, result) \<Rightarrow> assign out (getInd outIt) result))
             (newDomainIterator outFun) outFun)"

text \<open>\<^verbatim>\<open>std::max<ValType>\<close>: the second argument when the first is smaller, else the first.\<close>

definition std_max :: "ValType \<Rightarrow> ValType \<Rightarrow> ValType" where
  "std_max a b = (if a < b then b else a)"

text \<open>
  Modelled from the spec: the body of \<^verbatim>\<open>maxMarginal\<close> is missing; its declaration
  documents it as \<^emph>\<open>equivalent to maxsum::marginal(inFun,std::max<ValType>,outFun)\<close>, and
  specification 4.3 as the specialization of \<^verbatim>\<open>marginal\<close> that uses the scalar max.
\<close>

definition maxMarginal :: "DiscreteFunction \<Rightarrow> DiscreteFunction \<Rightarrow> error option \<times> DiscreteFunction" where
  "maxMarginal inFun outFun = marginal inFun std_max outFun"

section \<open>Comparison of two functions\<close>

text \<open>
  Modelled from the spec: \<^emph>\<open>the union of domains\<close> of two functions. Its variables are
  sorted and without duplicates, as \<^verbatim>\<open>expand\<close> builds them.
\<close>

definition unionVars :: "DiscreteFunction \<Rightarrow> DiscreteFunction \<Rightarrow> VarID list" where
  "unionVars f1 f2 = remdups_adj (sort (vars_i f1 @ vars_i f2))"

text \<open>
  Modelled from the spec: the sizes of the variables of the union of the domains, each
  taken from the cache of the function that has the variable.
\<close>

definition unionSizes :: "DiscreteFunction \<Rightarrow> DiscreteFunction \<Rightarrow> ValIndex list" where
  "unionSizes f1 f2 =
     map (\<lambda>v. if v \<in> set (vars_i f1) then coord (vars_i f1) (size_i f1) v
              else coord (vars_i f2) (size_i f2) v)
       (unionVars f1 f2)"

text \<open>
  Modelled from the spec: \<^emph>\<open>every coordinate tuple\<close> below the given sizes, the first
  coordinate varying fastest.
\<close>

fun allTuples :: "ValIndex list \<Rightarrow> ValIndex list list" where
  "allTuples [] = [[]]"
| "allTuples (s # sizes) = concat (map (\<lambda>t. map (\<lambda>a. a # t) [0..<s]) (allTuples sizes))"

text \<open>
  Modelled from the spec: \<^emph>\<open>the broadcasted value\<close> of a function at a tuple over the
  variables \<open>outerVars\<close>, which is its value at the restriction of the tuple to its own
  variables.
\<close>

definition broadcast ::
  "DiscreteFunction \<Rightarrow> VarID list \<Rightarrow> ValIndex list \<Rightarrow> error + ValType"
where
  "broadcast f outerVars x = at_sub f (restrict_tuple outerVars x (vars_i f))"

text \<open>
  Modelled from the spec: the test of two values in \<^verbatim>\<open>equalWithinTolerance\<close>, whose body
  is missing. Specification 4.3: \<^emph>\<open>the broadcasted values agree within tol (relative
  test: |1 - f/g| < tol where denominators are nonzero; tol == 0 reduces to exact
  equality)\<close>. Specification 9: \<^emph>\<open>behavior when f2(k) == 0 is unspecified\<close>; the outcome
  of the test in that case is the parameter \<open>zeroRule\<close>.
\<close>

definition withinTolerance ::
  "(ValType \<Rightarrow> ValType \<Rightarrow> bool) \<Rightarrow> ValType \<Rightarrow> ValType \<Rightarrow> ValType \<Rightarrow> bool"
where
  "withinTolerance zeroRule tol a b =
     (if tol = 0 then a = b
      else if b \<noteq> 0 then \<bar>1 - a / b\<bar> < tol
      else zeroRule a b)"

text \<open>
  Modelled from the spec: the body of \<^verbatim>\<open>equalWithinTolerance\<close> is missing; only its
  declaration and its caller \<^verbatim>\<open>operator==\<close> are present. Specification 4.3: \<^emph>\<open>true iff,
  for every coordinate tuple in the union of domains, the broadcasted values agree within
  tol\<close>.
\<close>

definition equalWithinTolerance ::
  "(ValType \<Rightarrow> ValType \<Rightarrow> bool) \<Rightarrow> DiscreteFunction \<Rightarrow> DiscreteFunction \<Rightarrow> ValType \<Rightarrow> bool"
where
  "equalWithinTolerance zeroRule f1 f2 tol =
     list_all
       (\<lambda>x. case (broadcast f1 (unionVars f1 f2) x, broadcast f2 (unionVars f1 f2) x) of
               (Inr a, Inr b) \<Rightarrow> withinTolerance zeroRule tol a b
             | _ \<Rightarrow> False)
       (allTuples (unionSizes f1 f2))"

text \<open>\<^verbatim>\<open>operator==\<close>: \<^verbatim>\<open>return equalWithinTolerance(f1,f2,0.0);\<close>\<close>

definition fun_equal ::
  "(ValType \<Rightarrow> ValType \<Rightarrow> bool) \<Rightarrow> DiscreteFunction \<Rightarrow> DiscreteFunction \<Rightarrow> bool"
where
  "fun_equal zeroRule f1 f2 = equalWithinTolerance zeroRule f1 f2 0"

section \<open>Reasoning about iterators\<close>

text \<open>
  The notions below serve the proofs only. The free coordinates of a tuple, read as a
  mixed-radix number with the first coordinate least significant, give the rank of the
  tuple among those that an iterator with the fixed flags \<open>fxs\<close> visits; the product of
  the free sizes is the number of tuples it visits.
\<close>

fun freeRank :: "bool list \<Rightarrow> ValIndex list \<Rightarrow> ValIndex list \<Rightarrow> nat" where
  "freeRank (fx # fxs) (sz # szs) (s # ss) =
     (if fx then freeRank fxs szs ss else s + sz * freeRank fxs szs ss)"
| "freeRank fxs szs ss = 0"

fun freeProd :: "bool list \<Rightarrow> ValIndex list \<Rightarrow> nat" where
  "freeProd (fx # fxs) (sz # szs) = (if fx then freeProd fxs szs else sz * freeProd fxs szs)"
| "freeProd fxs szs = 1"

text \<open>Two tuples agree on the fixed coordinates.\<close>

fun agree :: "bool list \<Rightarrow> ValIndex list \<Rightarrow> ValIndex list \<Rightarrow> bool" where
  "agree (fx # fxs) (p # ps) (s # ss) = ((\<not> fx \<or> p = s) \<and> agree fxs ps ss)"
| "agree fxs ps ss = True"

text \<open>
  An iterator over the variables \<open>vs\<close> with fixed flags \<open>fxs\<close> and sizes \<open>szs\<close>, whose
  fixed coordinates are those of \<open>p\<close>, stands at the tuple of rank \<open>r\<close>; at the rank
  \<open>freeProd fxs szs\<close> it is finished.
\<close>

definition it_at ::
  "VarID list \<Rightarrow> bool list \<Rightarrow> ValIndex list \<Rightarrow> ValIndex list \<Rightarrow> nat \<Rightarrow> DomainIterator \<Rightarrow> bool"
where
  "it_at vs fxs szs p r it \<longleftrightarrow>
     it_vars it = vs \<and> it_fixed it = fxs \<and> it_sizes it = szs \<and>
     (if r < freeProd fxs szs
      then \<not> it_finished it \<and> in_range szs (it_subInd it) \<and> agree fxs p (it_subInd it)
           \<and> freeRank fxs szs (it_subInd it) = r \<and> it_ind it = sub2ind szs (it_subInd it)
      else it_finished it)"

text \<open>
  The tuple over the variables \<open>vs\<close> that extends a tuple \<open>y\<close> over the variables
  without a pinned value by the pinned values.
\<close>

fun extend_tuple :: "VarID list \<Rightarrow> (VarID \<rightharpoonup> ValIndex) \<Rightarrow> ValIndex list \<Rightarrow> ValIndex list" where
  "extend_tuple [] pinned y = []"
| "extend_tuple (v # vs) pinned y =
     (case pinned v of
        Some i \<Rightarrow> i # extend_tuple vs pinned y
      | None \<Rightarrow> (case y of [] \<Rightarrow> [] | a # as \<Rightarrow> a # extend_tuple vs pinned as))"

text \<open>
  A list of values is parallel to a list of variables and in range: each value is below
  the registered size of its variable.
\<close>

definition vals_in_range :: "registry \<Rightarrow> VarID list \<Rightarrow> ValIndex list \<Rightarrow> bool" where
  "vals_in_range reg vs vals =
     list_all2 (\<lambda>v i. case reg v of Some s \<Rightarrow> i < s | None \<Rightarrow> False) vs vals"

section \<open>Properties of the index arithmetic\<close>

lemma sub2ind_Nil [simp]: "sub2ind [] sub = 0"
  by (simp add: sub2ind_def)

lemma sub2ind_Cons [simp]: "sub2ind (s # sizes) (x # sub) = x + s * sub2ind sizes sub"
proof -
  have upt: "[0..<Suc (length sizes)] = 0 # map Suc [0..<length sizes]"
    by (simp add: upt_conv_Cons map_Suc_upt del: upt_Suc)
  have "sub2ind (s # sizes) (x # sub) =
      x + (\<Sum>k\<leftarrow>[0..<length sizes]. s * (sub ! k * prod_list (take k sizes)))"
    unfolding sub2ind_def length_Cons upt
    by (simp add: comp_def mult.left_commute del: upt_Suc)
  also have "\<dots> = x + s * sub2ind sizes sub"
    by (simp add: sub2ind_def sum_list_const_mult)
  finally show ?thesis .
qed

lemma sub2ind_sum:
  "sub2ind sizes sub = (\<Sum>k<length sizes. sub ! k * prod_list (take k sizes))"
  by (simp add: sub2ind_def interv_sum_list_conv_sum_set_nat atLeast0LessThan)

lemma in_range_Nil [simp]: "in_range [] sub \<longleftrightarrow> sub = []"
  by (simp add: in_range_def)

lemma in_range_Cons [simp]:
  "in_range (s # sizes) sub \<longleftrightarrow> (\<exists>x xs. sub = x # xs \<and> x < s \<and> in_range sizes xs)"
  by (auto simp: in_range_def list_all2_Cons2)

lemma in_range_length: "in_range sizes sub \<Longrightarrow> length sub = length sizes"
  by (simp add: in_range_def list_all2_lengthD)

lemma sub2ind_less: "in_range sizes sub \<Longrightarrow> sub2ind sizes sub < prod_list sizes"
proof (induction sizes arbitrary: sub)
  case Nil
  then show ?case by simp
next
  case (Cons s sizes)
  then obtain x xs where sub: "sub = x # xs" and x: "x < s" and xs: "in_range sizes xs"
    by auto
  from Cons.IH [OF xs] have "Suc (sub2ind sizes xs) \<le> prod_list sizes"
    by simp
  then have "s * Suc (sub2ind sizes xs) \<le> s * prod_list sizes"
    by (rule mult_le_mono2)
  with x show ?case
    by (simp add: sub)
qed

lemma sub2ind_inj:
  "in_range sizes x \<Longrightarrow> in_range sizes y \<Longrightarrow> sub2ind sizes x = sub2ind sizes y \<Longrightarrow> x = y"
proof (induction sizes arbitrary: x y)
  case Nil
  then show ?case by simp
next
  case (Cons s sizes)
  from Cons.prems obtain a as where x: "x = a # as" and a: "a < s" and as: "in_range sizes as"
    by auto
  from Cons.prems obtain b bs where y: "y = b # bs" and b: "b < s" and bs: "in_range sizes bs"
    by auto
  from Cons.prems(3) have eq: "a + s * sub2ind sizes as = b + s * sub2ind sizes bs"
    by (simp add: x y)
  from eq have "(a + s * sub2ind sizes as) mod s = (b + s * sub2ind sizes bs) mod s"
    by simp
  with a b have ab: "a = b" by simp
  with eq a have "sub2ind sizes as = sub2ind sizes bs" by simp
  with Cons.IH [OF as bs] ab show ?case
    by (simp add: x y)
qed

section \<open>Registry\<close>

text \<open>
  C7: registering a variable that is absent succeeds; registering it again with the
  same size succeeds and changes nothing; registering it again with a different size
  fails, with \<open>-1\<close> through the C surface, and leaves the registry as it was, so the
  registered size is still the first one.
\<close>

theorem registerVariable_rules:
  assumes absent: "reg var = None" and differ: "s2 \<noteq> s1"
  shows "fst (registerVariable_ms reg var s1) \<noteq> - 1
       \<and> getDomainSize (snd (registerVariable_ms reg var s1)) var = Inr s1
       \<and> fst (registerVariable_ms (snd (registerVariable_ms reg var s1)) var s1) \<noteq> - 1
       \<and> snd (registerVariable_ms (snd (registerVariable_ms reg var s1)) var s1)
           = snd (registerVariable_ms reg var s1)
       \<and> registerVariable_ms (snd (registerVariable_ms reg var s1)) var s2
           = (- 1, snd (registerVariable_ms reg var s1))
       \<and> getDomainSize
             (snd (registerVariable_ms (snd (registerVariable_ms reg var s1)) var s2)) var
           = Inr s1"
  using absent differ
  by (simp add: registerVariable_ms_def registerVariable_def getDomainSize_def)

theorem registerVariable_rules_witness:
  "(Map.empty :: registry) 1 = None \<and> (3::nat) \<noteq> 2
   \<and> registerVariable_ms (snd (registerVariable_ms Map.empty 1 2)) 1 3
       = (- 1, snd (registerVariable_ms Map.empty 1 2))
   \<and> getDomainSize (snd (registerVariable_ms (snd (registerVariable_ms Map.empty 1 2)) 1 3)) 1
       = Inr 2"
proof -
  have h1: "(Map.empty :: registry) 1 = None" by simp
  have h2: "(3::nat) \<noteq> 2" by simp
  from registerVariable_rules [OF h1 h2] h1 h2 show ?thesis by blast
qed

section \<open>Comparison with a scalar\<close>

lemma all_from_Suc:
  "k < n \<Longrightarrow> (\<forall>j. k \<le> j \<and> j < n \<longrightarrow> Q j) \<longleftrightarrow> Q k \<and> (\<forall>j. Suc k \<le> j \<and> j < n \<longrightarrow> Q j)"
  for k n :: nat
proof
  assume "k < n" and "\<forall>j. k \<le> j \<and> j < n \<longrightarrow> Q j"
  then show "Q k \<and> (\<forall>j. Suc k \<le> j \<and> j < n \<longrightarrow> Q j)"
    by simp
next
  assume "k < n" and r: "Q k \<and> (\<forall>j. Suc k \<le> j \<and> j < n \<longrightarrow> Q j)"
  show "\<forall>j. k \<le> j \<and> j < n \<longrightarrow> Q j"
  proof (intro allI impI)
    fix j assume "k \<le> j \<and> j < n"
    then show "Q j" using r by (cases "j = k") auto
  qed
qed

lemma less_loop_iff:
  "less_loop f v k \<longleftrightarrow> (\<forall>j. k \<le> j \<and> j < domainSize f \<longrightarrow> values_i f ! j < v)"
proof (induction f v k rule: less_loop.induct)
  case (1 f v k)
  show ?case
  proof (cases "k < domainSize f")
    case False
    then show ?thesis by (subst less_loop.simps) simp
  next
    case True
    from True "1.IH" have "less_loop f v k \<longleftrightarrow>
        values_i f ! k < v \<and> (\<forall>j. Suc k \<le> j \<and> j < domainSize f \<longrightarrow> values_i f ! j < v)"
      by (subst less_loop.simps) (auto simp: not_le)
    with all_from_Suc [OF True, of "\<lambda>j. values_i f ! j < v"] show ?thesis
      by simp
  qed
qed

lemma less_eq_loop_iff:
  "less_eq_loop f v k \<longleftrightarrow> (\<forall>j. k \<le> j \<and> j < domainSize f \<longrightarrow> values_i f ! j \<le> v)"
proof (induction f v k rule: less_eq_loop.induct)
  case (1 f v k)
  show ?case
  proof (cases "k < domainSize f")
    case False
    then show ?thesis by (subst less_eq_loop.simps) simp
  next
    case True
    from True "1.IH" have "less_eq_loop f v k \<longleftrightarrow>
        values_i f ! k \<le> v \<and> (\<forall>j. Suc k \<le> j \<and> j < domainSize f \<longrightarrow> values_i f ! j \<le> v)"
      by (subst less_eq_loop.simps) (auto simp: not_less)
    with all_from_Suc [OF True, of "\<lambda>j. values_i f ! j \<le> v"] show ?thesis
      by simp
  qed
qed

lemma greater_loop_iff:
  "greater_loop f v k \<longleftrightarrow> (\<forall>j. k \<le> j \<and> j < domainSize f \<longrightarrow> values_i f ! j > v)"
proof (induction f v k rule: greater_loop.induct)
  case (1 f v k)
  show ?case
  proof (cases "k < domainSize f")
    case False
    then show ?thesis by (subst greater_loop.simps) simp
  next
    case True
    from True "1.IH" have "greater_loop f v k \<longleftrightarrow>
        values_i f ! k > v \<and> (\<forall>j. Suc k \<le> j \<and> j < domainSize f \<longrightarrow> values_i f ! j > v)"
      by (subst greater_loop.simps) (auto simp: not_le)
    with all_from_Suc [OF True, of "\<lambda>j. values_i f ! j > v"] show ?thesis
      by simp
  qed
qed

lemma greater_eq_loop_iff:
  "greater_eq_loop f v k \<longleftrightarrow> (\<forall>j. k \<le> j \<and> j < domainSize f \<longrightarrow> values_i f ! j \<ge> v)"
proof (induction f v k rule: greater_eq_loop.induct)
  case (1 f v k)
  show ?case
  proof (cases "k < domainSize f")
    case False
    then show ?thesis by (subst greater_eq_loop.simps) simp
  next
    case True
    from True "1.IH" have "greater_eq_loop f v k \<longleftrightarrow>
        values_i f ! k \<ge> v \<and> (\<forall>j. Suc k \<le> j \<and> j < domainSize f \<longrightarrow> values_i f ! j \<ge> v)"
      by (subst greater_eq_loop.simps) (auto simp: not_less)
    with all_from_Suc [OF True, of "\<lambda>j. values_i f ! j \<ge> v"] show ?thesis
      by simp
  qed
qed

text \<open>The operators with the function on the left hold iff the relation holds at every cell.\<close>

lemma fun_relations_cellwise:
  "fun_less f v \<longleftrightarrow> (\<forall>k<domainSize f. values_i f ! k < v)"
  "fun_less_eq f v \<longleftrightarrow> (\<forall>k<domainSize f. values_i f ! k \<le> v)"
  "fun_greater f v \<longleftrightarrow> (\<forall>k<domainSize f. values_i f ! k > v)"
  "fun_greater_eq f v \<longleftrightarrow> (\<forall>k<domainSize f. values_i f ! k \<ge> v)"
  by (simp_all add: fun_less_def fun_less_eq_def fun_greater_def fun_greater_eq_def
      less_loop_iff less_eq_loop_iff greater_loop_iff greater_eq_loop_iff)

text \<open>What the operators with the scalar on the left compute.\<close>

lemma scalar_relations_cellwise:
  "scalar_greater_eq v f \<longleftrightarrow> (\<forall>k<domainSize f. v > values_i f ! k)"
  "scalar_greater v f \<longleftrightarrow> (\<forall>k<domainSize f. v \<ge> values_i f ! k)"
  "scalar_less_eq v f \<longleftrightarrow> (\<forall>k<domainSize f. v < values_i f ! k)"
  "scalar_less v f \<longleftrightarrow> (\<forall>k<domainSize f. v \<le> values_i f ! k)"
  by (simp_all add: scalar_greater_eq_def scalar_greater_def scalar_less_eq_def scalar_less_def
      fun_relations_cellwise)

text \<open>
  C6: a relational operator between a function and a scalar should hold iff the relation
  holds at every cell. The constant function of value 1 is compared with the scalar 1
  on the left: \<open>1 \<ge> f\<close> and \<open>1 \<le> f\<close> hold at the only cell and the operators
  return false; \<open>1 > f\<close> and \<open>1 < f\<close> do not hold there and the operators return
  true.
\<close>

theorem scalar_left_relations_at_equal_cell:
  "domainSize \<lparr>vars_i = [], size_i = [], values_i = [1]\<rparr> = 1
   \<and> values_i \<lparr>vars_i = [], size_i = [], values_i = [1]\<rparr> ! 0 = 1
   \<and> scalar_greater_eq 1 \<lparr>vars_i = [], size_i = [], values_i = [1]\<rparr> = False
   \<and> scalar_greater 1 \<lparr>vars_i = [], size_i = [], values_i = [1]\<rparr> = True
   \<and> scalar_less_eq 1 \<lparr>vars_i = [], size_i = [], values_i = [1]\<rparr> = False
   \<and> scalar_less 1 \<lparr>vars_i = [], size_i = [], values_i = [1]\<rparr> = True"
  by (simp add: scalar_greater_eq_def scalar_greater_def scalar_less_eq_def scalar_less_def
      fun_less_def fun_less_eq_def fun_greater_def fun_greater_eq_def domainSize_def
      less_loop.simps less_eq_loop.simps greater_loop.simps greater_eq_loop.simps)

section \<open>Construction\<close>

lemma lowBits_mod: "lowBits b n = n mod 2 ^ b"
  by (induction b arbitrary: n) (simp_all add: mod_mult2_eq)

lemma cacheSizes_code [code]:
  "cacheSizes bits reg [] sizes totalSize = Inr (sizes, totalSize)"
  "cacheSizes bits reg (v # vs) sizes totalSize =
     (case getDomainSize reg v of
        Inl e \<Rightarrow> Inl e
      | Inr s \<Rightarrow> cacheSizes bits reg vs (sizes @ [s]) (lowBits bits (totalSize * s)))"
  by (simp_all add: lowBits_mod split: sum.splits)

lemma cacheSizes_registered:
  "\<forall>v\<in>set vs. isRegistered reg v \<Longrightarrow>
   cacheSizes bits reg vs sizes tot =
     Inr (sizes @ map (\<lambda>v. the (reg v)) vs,
          if vs = [] then tot else (tot * prod_list (map (\<lambda>v. the (reg v)) vs)) mod 2 ^ bits)"
proof (induction vs arbitrary: sizes tot)
  case Nil
  then show ?case by simp
next
  case (Cons v vs)
  from Cons.prems obtain s where s: "reg v = Some s"
    by (auto simp: isRegistered_def)
  from Cons.prems have rest: "\<forall>v\<in>set vs. isRegistered reg v" by simp
  have "((tot * s) mod 2 ^ bits * prod_list (map (\<lambda>v. the (reg v)) vs)) mod 2 ^ bits
      = (tot * (s * prod_list (map (\<lambda>v. the (reg v)) vs))) mod 2 ^ bits"
    by (simp add: mod_mult_left_eq mult.assoc)
  with Cons.IH [OF rest, of "sizes @ [s]" "(tot * s) mod 2 ^ bits"] s show ?case
    by (simp add: getDomainSize_def)
qed

lemma prod_list_map_insort:
  "prod_list (map f (insort x xs)) = f x * prod_list (map f xs)" for f :: "nat \<Rightarrow> nat"
  by (induction xs) simp_all

lemma prod_list_map_sort:
  "prod_list (map f (sort xs)) = prod_list (map f xs)" for f :: "nat \<Rightarrow> nat"
  by (induction xs) (simp_all add: prod_list_map_insort)

text \<open>
  When the product of the sizes fits \<^verbatim>\<open>ValIndex\<close>, the constructor allocates one cell for
  each tuple.
\<close>

lemma newDiscreteFunction_registered:
  assumes "\<forall>v\<in>set vs. isRegistered reg v"
    and "prod_list (map (\<lambda>v. the (reg v)) vs) < 2 ^ bits"
  shows "newDiscreteFunction bits reg vs val =
     Inr \<lparr>vars_i = sort vs, size_i = map (\<lambda>v. the (reg v)) (sort vs),
          values_i = replicate (prod_list (map (\<lambda>v. the (reg v)) (sort vs))) val\<rparr>"
proof -
  from assms(1) have "\<forall>v\<in>set (sort vs). isRegistered reg v" by simp
  note loop = cacheSizes_registered [OF this, of bits "[]" 1]
  from assms(2) have fits: "prod_list (map (\<lambda>v. the (reg v)) (sort vs)) < 2 ^ bits"
    by (simp add: prod_list_map_sort)
  show ?thesis
  proof (cases "sort vs = []")
    case True
    with loop show ?thesis
      by (simp add: newDiscreteFunction_def Let_def)
  next
    case False
    with loop fits show ?thesis
      by (simp add: newDiscreteFunction_def Let_def)
  qed
qed

text \<open>
  Otherwise the product wraps around: two variables of size 65536 and a 32-bit
  \<^verbatim>\<open>ValIndex\<close> give a function without cells.
\<close>

lemma newDiscreteFunction_wraps:
  "newDiscreteFunction 32 [1 \<mapsto> 65536, 2 \<mapsto> 65536] [1, 2] 0
     = Inr \<lparr>vars_i = [1, 2], size_i = [65536, 65536], values_i = []\<rparr>"
  by (simp add: newDiscreteFunction_def getDomainSize_def)

text \<open>
  C9 (as amended): for every variable list, sorted or not, whose variables are all
  registered and whose product of sizes fits \<^verbatim>\<open>ValIndex\<close>, the constructed function has
  the sorted input as its variable list, the registered sizes, and one cell for each
  tuple, each equal to the initializer. The variable list is free of duplicates exactly
  when the input has no repeated ids: the constructor sorts and removes nothing.
\<close>

theorem newDiscreteFunction_invariant:
  assumes "\<forall>v\<in>set vs. isRegistered reg v"
    and "prod_list (map (\<lambda>v. the (reg v)) vs) < 2 ^ bits"
  shows "\<exists>f. newDiscreteFunction bits reg vs val = Inr f
       \<and> vars_i f = sort vs \<and> sorted (vars_i f)
       \<and> (distinct (vars_i f) \<longleftrightarrow> distinct vs)
       \<and> map reg (vars_i f) = map Some (size_i f)
       \<and> length (values_i f) = prod_list (size_i f)
       \<and> (\<forall>k<length (values_i f). values_i f ! k = val)"
proof -
  from assms(1) have "map reg (sort vs) = map Some (map (\<lambda>v. the (reg v)) (sort vs))"
    by (auto simp: isRegistered_def)
  with newDiscreteFunction_registered [OF assms, of val] show ?thesis
    by simp
qed

theorem newDiscreteFunction_invariant_witness:
  "isRegistered [1 \<mapsto> 2, 2 \<mapsto> 3] 2 \<and> isRegistered [1 \<mapsto> 2, 2 \<mapsto> 3] 1
   \<and> prod_list (map (\<lambda>v. the ([1 \<mapsto> 2, 2 \<mapsto> 3] v)) [2, 1::nat]) < (2::nat) ^ 32
   \<and> (\<exists>f. newDiscreteFunction 32 [1 \<mapsto> 2, 2 \<mapsto> 3] [2, 1] 5 = Inr f
       \<and> vars_i f = sort [2, 1] \<and> sorted (vars_i f)
       \<and> (distinct (vars_i f) \<longleftrightarrow> distinct [2, 1::nat])
       \<and> map [1 \<mapsto> 2, 2 \<mapsto> 3] (vars_i f) = map Some (size_i f)
       \<and> length (values_i f) = prod_list (size_i f)
       \<and> (\<forall>k<length (values_i f). values_i f ! k = 5))"
proof -
  have h: "\<forall>v\<in>set [2, 1]. isRegistered [1 \<mapsto> 2, 2 \<mapsto> 3] v"
    by (simp add: isRegistered_def)
  have b: "prod_list (map (\<lambda>v. the ([1 \<mapsto> 2, 2 \<mapsto> 3] v)) [2, 1::nat]) < (2::nat) ^ 32"
    by simp
  from newDiscreteFunction_invariant
         [where reg = "[1 \<mapsto> 2, 2 \<mapsto> 3]" and vs = "[2, 1]" and bits = 32 and val = 5, OF h b]
       h b
  show ?thesis
    by simp
qed

theorem newDiscreteFunction_keeps_repeated_ids:
  "isRegistered [1 \<mapsto> 2] 1
   \<and> newDiscreteFunction 32 [1 \<mapsto> 2] [1, 1] 0
       = Inr \<lparr>vars_i = [1, 1], size_i = [2, 2], values_i = [0, 0, 0, 0]\<rparr>
   \<and> \<not> distinct (vars_i \<lparr>vars_i = [1, 1], size_i = [2, 2], values_i = [0, 0, 0, 0]\<rparr>)"
proof -
  have "replicate 4 (0::real) = [0, 0, 0, 0]"
    by (simp add: numeral_eq_Suc)
  then have "newDiscreteFunction 32 [1 \<mapsto> 2] [1, 1] 0
       = Inr \<lparr>vars_i = [1, 1], size_i = [2, 2], values_i = [0, 0, 0, 0]\<rparr>"
    by (simp add: newDiscreteFunction_def getDomainSize_def)
  then show ?thesis
    by (simp add: isRegistered_def)
qed

section \<open>Access by the subindices of a superset of the variables\<close>

lemma coord_Cons:
  "coord (w # outerVars) (s # x) v = (if v = w then s else coord outerVars x v)"
  by (simp add: coord_def)

lemma restrict_tuple_Cons_notin:
  "w \<notin> set vs \<Longrightarrow> restrict_tuple (w # outerVars) (s # x) vs = restrict_tuple outerVars x vs"
  by (auto simp: restrict_tuple_def coord_Cons)

lemma superLoop_restrict:
  assumes "length inV = length sub" and "sorted inV" and "sorted myV" and "distinct myV"
    and "set myV \<subseteq> set inV" and "length siz = length myV"
    and "in_range siz (restrict_tuple inV sub myV)"
  shows "superLoop myV siz inV sub skip index =
           Inr (index + skip * sub2ind siz (restrict_tuple inV sub myV))"
  using assms
proof (induction inV sub arbitrary: myV siz skip index rule: list_induct2)
  case Nil
  then show ?case by simp
next
  case (Cons w inV s sub)
  show ?case
  proof (cases myV)
    case Nil
    with Cons.prems show ?thesis by simp
  next
    case myV: (Cons v vs)
    with Cons.prems obtain sz szs where siz: "siz = sz # szs" and szs: "length szs = length vs"
      by (cases siz) auto
    show ?thesis
    proof (cases "v = w")
      case True
      from Cons.prems myV have w_notin: "w \<notin> set vs" and vs: "sorted vs" "distinct vs"
        using True by auto
      from Cons.prems myV w_notin have sub_vs: "set vs \<subseteq> set inV"
        by auto
      have eq: "restrict_tuple (w # inV) (s # sub) myV = s # restrict_tuple inV sub vs"
        using True restrict_tuple_Cons_notin [OF w_notin, of inV s sub]
        by (simp add: myV restrict_tuple_def coord_Cons)
      from Cons.prems(6) have s: "s < sz" and rng: "in_range szs (restrict_tuple inV sub vs)"
        by (simp_all add: eq siz)
      from Cons.prems(1) have inV: "sorted inV" by simp
      have "superLoop vs szs inV sub (skip * sz) (index + s * skip) =
          Inr (index + s * skip + skip * sz * sub2ind szs (restrict_tuple inV sub vs))"
        by (rule Cons.IH [OF inV vs sub_vs szs rng])
      then show ?thesis
        using True s by (simp add: eq) (simp add: myV siz algebra_simps)
    next
      case False
      from Cons.prems myV False have v_in: "v \<in> set inV" by auto
      from Cons.prems(1) v_in have "w \<le> v" by auto
      with False have "w < v" by simp
      with Cons.prems(2) myV have w_notin: "w \<notin> set myV" by auto
      with Cons.prems(4) have sub_myV: "set myV \<subseteq> set inV" by auto
      from Cons.prems(1) have inV: "sorted inV" by simp
      have eq: "restrict_tuple (w # inV) (s # sub) myV = restrict_tuple inV sub myV"
        by (rule restrict_tuple_Cons_notin [OF w_notin])
      from Cons.prems(6) have rng: "in_range siz (restrict_tuple inV sub myV)"
        by (simp only: eq)
      have "superLoop myV siz inV sub skip index =
          Inr (index + skip * sub2ind siz (restrict_tuple inV sub myV))"
        by (rule Cons.IH [OF inV Cons.prems(2) Cons.prems(3) sub_myV Cons.prems(5) rng])
      with False show ?thesis
        by (simp add: eq) (simp add: myV siz)
    qed
  qed
qed


lemma superIndex_restrict:
  assumes "sorted (vars_i f)" and "distinct (vars_i f)"
    and "length (size_i f) = length (vars_i f)"
    and "length (values_i f) = prod_list (size_i f)"
    and "sorted outerVars" and "set (vars_i f) \<subseteq> set outerVars"
    and "length outerSub = length outerVars"
    and "in_range (size_i f) (restrict_tuple outerVars outerSub (vars_i f))"
  shows "superIndex f outerVars outerSub =
           Inr (sub2ind (size_i f) (restrict_tuple outerVars outerSub (vars_i f)))"
proof -
  have "length (vars_i f) = card (set (vars_i f))"
    using assms(2) by (simp add: distinct_card)
  also have "\<dots> \<le> card (set outerVars)"
    using assms(6) by (simp add: card_mono)
  also have "\<dots> \<le> length outerVars"
    by (rule card_length)
  finally have len: "length (vars_i f) \<le> length outerVars" .
  have loop: "superLoop (vars_i f) (size_i f) outerVars outerSub 1 0 =
      Inr (sub2ind (size_i f) (restrict_tuple outerVars outerSub (vars_i f)))"
    using superLoop_restrict [OF assms(7)[symmetric] assms(5) assms(1) assms(2) assms(6)
        assms(3) assms(8), of 1 0]
    by simp
  from sub2ind_less [OF assms(8)] assms(4)
  have "sub2ind (size_i f) (restrict_tuple outerVars outerSub (vars_i f)) < length (values_i f)"
    by simp
  with len loop assms(3) assms(7) show ?thesis
    by (simp add: superIndex_def)
qed

text \<open>
  C4: for a function with strictly ascending variables, a sorted list \<open>outerVars\<close> that
  contains them and a parallel list \<open>outerSub\<close> whose subindices for the function's
  variables are in range, the accessor returns the cell at the linear index
  \<open>\<Sigma>_k sub[k] \<cdot> \<Pi>_{j<k} sizes[j]\<close>, where \<open>sub\<close> keeps only the subindices of the
  function's own variables: the column-major cell, the first variable varying fastest.
\<close>

theorem at_super_column_major:
  assumes "sorted (vars_i f)" and "distinct (vars_i f)"
    and "length (size_i f) = length (vars_i f)"
    and "length (values_i f) = prod_list (size_i f)"
    and "sorted outerVars" and "set (vars_i f) \<subseteq> set outerVars"
    and "length outerSub = length outerVars"
    and "in_range (size_i f) (restrict_tuple outerVars outerSub (vars_i f))"
  shows "at_super f outerVars outerSub =
           Inr (values_i f !
                 (\<Sum>k<length (size_i f).
                     restrict_tuple outerVars outerSub (vars_i f) ! k
                       * prod_list (take k (size_i f))))
       \<and> (\<Sum>k<length (size_i f).
             restrict_tuple outerVars outerSub (vars_i f) ! k * prod_list (take k (size_i f)))
           < length (values_i f)"
proof -
  have "sub2ind (size_i f) (restrict_tuple outerVars outerSub (vars_i f)) < length (values_i f)"
    using sub2ind_less [OF assms(8)] assms(4) by simp
  then show ?thesis
    using superIndex_restrict [OF assms]
    by (simp add: at_super_def sub2ind_sum)
qed

theorem at_super_column_major_witness:
  "at_super \<lparr>vars_i = [1, 2], size_i = [2, 3], values_i = [0, 1, 10, 11, 20, 21]\<rparr>
       [0, 1, 2, 5] [7, 1, 2, 9]
     = Inr ([0, 1, 10, 11, 20, 21] !
              (\<Sum>k<length [2, 3::nat].
                  restrict_tuple [0, 1, 2, 5] [7, 1, 2, 9] [1, 2] ! k * prod_list (take k [2, 3])))
   \<and> restrict_tuple [0, 1, 2, 5] [7, 1, 2, 9] [1, 2] = [1, 2]"
proof -
  let ?f = "\<lparr>vars_i = [1, 2], size_i = [2, 3], values_i = [0, 1, 10, 11, 20, 21]\<rparr>"
  have h1: "sorted (vars_i ?f)" by simp
  have h2: "distinct (vars_i ?f)" by simp
  have h3: "length (size_i ?f) = length (vars_i ?f)" by simp
  have h4: "length (values_i ?f) = prod_list (size_i ?f)" by simp
  have h5: "sorted [0, 1, 2, 5::nat]" by simp
  have h6: "set (vars_i ?f) \<subseteq> set [0, 1, 2, 5]" by simp
  have h7: "length [7, 1, 2, 9::nat] = length [0, 1, 2, 5::nat]" by simp
  have r: "restrict_tuple [0, 1, 2, 5] [7, 1, 2, 9] [1, 2] = [1, 2]"
    by (simp add: restrict_tuple_def coord_def)
  have h8: "in_range (size_i ?f) (restrict_tuple [0, 1, 2, 5] [7, 1, 2, 9] (vars_i ?f))"
    by (simp add: restrict_tuple_def coord_def)
  from at_super_column_major [OF h1 h2 h3 h4 h5 h6 h7 h8] r show ?thesis
    by simp
qed

section \<open>The domain test of marginal\<close>

lemma std_includes_subset:
  "sorted xs \<Longrightarrow> sorted ys \<Longrightarrow> distinct ys \<Longrightarrow> std_includes xs ys \<longleftrightarrow> set ys \<subseteq> set xs"
proof (induction xs ys rule: std_includes.induct)
  case (1 xs)
  then show ?case by simp
next
  case (2 y ys)
  then show ?case by simp
next
  case (3 x xs y ys)
  show ?case
  proof (cases "y < x")
    case True
    with "3.prems"(1) have "y \<notin> set (x # xs)" by auto
    with True show ?thesis by auto
  next
    case False
    show ?thesis
    proof (cases "x < y")
      case True
      with "3.prems"(2) have "x \<notin> set (y # ys)" by auto
      moreover from True "3.IH"(1) [OF False True] "3.prems"
      have "std_includes xs (y # ys) \<longleftrightarrow> set (y # ys) \<subseteq> set xs" by simp
      ultimately show ?thesis
        using True False by auto
    next
      case xy: False
      with False have eq: "x = y" by simp
      from "3.prems" have "y \<notin> set ys" by simp
      moreover from "3.IH"(2) [OF False xy] "3.prems"
      have "std_includes xs ys \<longleftrightarrow> set ys \<subseteq> set xs" by simp
      ultimately show ?thesis
        using eq by auto
    qed
  qed
qed

lemma it_loop_error:
  assumes "\<And>it s. fst (body it s) \<noteq> Some e"
  shows "fst (it_loop body it s) \<noteq> Some e"
  using assms
proof (induction body it s rule: it_loop.induct)
  case (1 body it s)
  show ?case
  proof (cases "hasNext it")
    case False
    then show ?thesis by (subst it_loop.simps) simp
  next
    case True
    obtain r s' where b: "body it s = (r, s')" by (cases "body it s")
    show ?thesis
    proof (cases r)
      case None
      with True b "1.IH" [OF True b [symmetric]] "1.prems" show ?thesis
        by (subst it_loop.simps) simp
    next
      case (Some e')
      with "1.prems" [of it s] b have "e' \<noteq> e" by simp
      with True b Some show ?thesis
        by (subst it_loop.simps) simp
    qed
  qed
qed


lemma marginal_inner_error:
  "fst (it_loop (\<lambda>inIt result.
                   case at_ind inFun (getInd inIt) of
                     Inl e \<Rightarrow> (Some e, result)
                   | Inr v \<Rightarrow> (None, aggregate result v)) it r) \<noteq> Some BadDomain"
  by (rule it_loop_error) (simp add: at_ind_def)

lemma marginal_loop_error:
  "fst (it_loop
         (\<lambda>outIt out.
            let inIt = condition_on (newDomainIterator inFun) outIt in
            case at_ind inFun (getInd inIt) of
              Inl e \<Rightarrow> (Some e, out)
            | Inr first \<Rightarrow>
                (case it_loop
                        (\<lambda>inIt result.
                           case at_ind inFun (getInd inIt) of
                             Inl e \<Rightarrow> (Some e, result)
                           | Inr v \<Rightarrow> (None, aggregate result v))
                        (advance inIt) first of
                   (Some e, result) \<Rightarrow> (Some e, out)
                 | (None, result) \<Rightarrow> assign out (getInd outIt) result))
         it s) \<noteq> Some BadDomain"
proof (rule it_loop_error)
  fix outIt :: DomainIterator and out :: DiscreteFunction
  let ?inIt = "condition_on (newDomainIterator inFun) outIt"
  let ?inner = "\<lambda>first. it_loop
                        (\<lambda>inIt result.
                           case at_ind inFun (getInd inIt) of
                             Inl e \<Rightarrow> (Some e, result)
                           | Inr v \<Rightarrow> (None, aggregate result v))
                        (advance ?inIt) first"
  show "fst (let inIt = condition_on (newDomainIterator inFun) outIt in
            case at_ind inFun (getInd inIt) of
              Inl e \<Rightarrow> (Some e, out)
            | Inr first \<Rightarrow>
                (case it_loop
                        (\<lambda>inIt result.
                           case at_ind inFun (getInd inIt) of
                             Inl e \<Rightarrow> (Some e, result)
                           | Inr v \<Rightarrow> (None, aggregate result v))
                        (advance inIt) first of
                   (Some e, result) \<Rightarrow> (Some e, out)
                 | (None, result) \<Rightarrow> assign out (getInd outIt) result)) \<noteq> Some BadDomain"
  proof (cases "at_ind inFun (getInd ?inIt)")
    case (Inl e)
    then have "e = OutOfRange" by (simp add: at_ind_def split: if_splits)
    with Inl show ?thesis by (simp add: Let_def)
  next
    case (Inr first)
    obtain r acc where inner: "?inner first = (r, acc)" by (cases "?inner first")
    from marginal_inner_error [where inFun = inFun and aggregate = aggregate
        and it = "advance ?inIt" and r = first] inner
    have "r \<noteq> Some BadDomain" by simp
    with Inr inner show ?thesis
      by (cases r) (simp_all add: Let_def assign_def)
  qed
qed

lemma marginal_throws_iff:
  assumes "sorted (vars_i inFun)" and "sorted (vars_i outFun)" and "distinct (vars_i outFun)"
  shows "fst (marginal inFun aggregate outFun) = Some BadDomain
           \<longleftrightarrow> \<not> set (vars_i outFun) \<subseteq> set (vars_i inFun)"
    and "fst (marginal inFun aggregate outFun) = Some BadDomain
           \<Longrightarrow> snd (marginal inFun aggregate outFun) = outFun"
proof -
  show "fst (marginal inFun aggregate outFun) = Some BadDomain
           \<longleftrightarrow> \<not> set (vars_i outFun) \<subseteq> set (vars_i inFun)"
  proof (cases "std_includes (vars_i inFun) (vars_i outFun)")
    case False
    with std_includes_subset [OF assms] show ?thesis
      by (simp add: marginal_def)
  next
    case True
    with marginal_loop_error [where inFun = inFun and aggregate = aggregate
        and it = "newDomainIterator outFun" and s = outFun]
    have "fst (marginal inFun aggregate outFun) \<noteq> Some BadDomain"
      by (simp add: marginal_def)
    with True std_includes_subset [OF assms] show ?thesis
      by simp
  qed
  then show "fst (marginal inFun aggregate outFun) = Some BadDomain
           \<Longrightarrow> snd (marginal inFun aggregate outFun) = outFun"
    using std_includes_subset [OF assms] by (simp add: marginal_def)
qed

text \<open>
  C8: for functions with strictly ascending variable lists, \<^verbatim>\<open>marginal\<close> fails with
  \<open>BadDomain\<close> if and only if the variables of \<open>outFun\<close> are not a subset of the
  variables of \<open>inFun\<close>, whatever the aggregate, and so does its specialization
  \<^verbatim>\<open>maxMarginal\<close>; on that error \<open>outFun\<close> is left as it was.
\<close>

theorem marginal_BadDomain_iff:
  assumes "sorted (vars_i inFun)" and "sorted (vars_i outFun)" and "distinct (vars_i outFun)"
  shows "(fst (marginal inFun aggregate outFun) = Some BadDomain
            \<longleftrightarrow> \<not> set (vars_i outFun) \<subseteq> set (vars_i inFun))
       \<and> (fst (marginal inFun aggregate outFun) = Some BadDomain
            \<longrightarrow> snd (marginal inFun aggregate outFun) = outFun)
       \<and> (fst (maxMarginal inFun outFun) = Some BadDomain
            \<longleftrightarrow> \<not> set (vars_i outFun) \<subseteq> set (vars_i inFun))
       \<and> (fst (maxMarginal inFun outFun) = Some BadDomain
            \<longrightarrow> snd (maxMarginal inFun outFun) = outFun)"
  using marginal_throws_iff [OF assms, of aggregate] marginal_throws_iff [OF assms, of std_max]
  unfolding maxMarginal_def by blast

theorem marginal_BadDomain_iff_witness:
  "sorted [1::nat] \<and> sorted [1, 2::nat] \<and> distinct [1, 2::nat]
   \<and> \<not> set [1, 2::nat] \<subseteq> set [1]
   \<and> fst (marginal \<lparr>vars_i = [1], size_i = [2], values_i = [10, 20]\<rparr> std_max
             \<lparr>vars_i = [1, 2], size_i = [2, 3], values_i = [0, 1, 10, 11, 20, 21]\<rparr>)
       = Some BadDomain
   \<and> snd (marginal \<lparr>vars_i = [1], size_i = [2], values_i = [10, 20]\<rparr> std_max
             \<lparr>vars_i = [1, 2], size_i = [2, 3], values_i = [0, 1, 10, 11, 20, 21]\<rparr>)
       = \<lparr>vars_i = [1, 2], size_i = [2, 3], values_i = [0, 1, 10, 11, 20, 21]\<rparr>"
proof -
  let ?f = "\<lparr>vars_i = [1], size_i = [2], values_i = [10, 20]\<rparr>"
  let ?g = "\<lparr>vars_i = [1, 2], size_i = [2, 3], values_i = [0, 1, 10, 11, 20, 21]\<rparr>"
  have h1: "sorted (vars_i ?f)" by simp
  have h2: "sorted (vars_i ?g)" by simp
  have h3: "distinct (vars_i ?g)" by simp
  have h4: "\<not> set (vars_i ?g) \<subseteq> set (vars_i ?f)" by simp
  from marginal_BadDomain_iff [OF h1 h2 h3, of std_max] h4 show ?thesis
    by simp
qed

section \<open>Properties of the iterator\<close>

lemma freeRank_less:
  "length fxs = length szs \<Longrightarrow> in_range szs x \<Longrightarrow> freeRank fxs szs x < freeProd fxs szs"
proof (induction fxs szs arbitrary: x rule: list_induct2)
  case Nil
  then show ?case by simp
next
  case (Cons fx fxs sz szs)
  from Cons.prems obtain a as where x: "x = a # as" and a: "a < sz" and as: "in_range szs as"
    by auto
  from Cons.IH [OF as] have ih: "Suc (freeRank fxs szs as) \<le> freeProd fxs szs"
    by simp
  show ?case
  proof (cases fx)
    case True
    with ih show ?thesis by (simp add: x)
  next
    case False
    from ih have "sz * Suc (freeRank fxs szs as) \<le> sz * freeProd fxs szs"
      by (rule mult_le_mono2)
    with a False show ?thesis by (simp add: x)
  qed
qed

lemma freeProd_pos: "0 \<notin> set szs \<Longrightarrow> 0 < freeProd fxs szs"
  by (induction fxs szs rule: freeProd.induct) auto

lemma increment_ok:
  assumes "length fxs = length szs" and "in_range szs x" and "agree fxs p x"
    and "increment fxs szs x = (x', c)"
  shows "if c then Suc (freeRank fxs szs x) = freeProd fxs szs
         else in_range szs x' \<and> agree fxs p x' \<and> freeRank fxs szs x' = Suc (freeRank fxs szs x)"
  using assms
proof (induction fxs szs arbitrary: x x' c p rule: list_induct2)
  case Nil
  then show ?case by auto
next
  case (Cons fx fxs sz szs)
  from Cons.prems obtain a as where x: "x = a # as" and a: "a < sz" and as: "in_range szs as"
    by auto
  obtain r c' where inc: "increment fxs szs as = (r, c')"
    by (cases "increment fxs szs as")
  have agree_tl: "agree fxs (tl p) as"
    using Cons.prems(2) by (cases p) (simp_all add: x)
  note ih = Cons.IH [OF as agree_tl inc]
  show ?case
  proof (cases "fx \<or> \<not> Suc a < sz")
    case False
    with Cons.prems a as show ?thesis
      by (cases p) (auto simp: x)
  next
    case True
    with Cons.prems(3) inc have c: "c = c'" and x': "x' = (if fx then a else 0) # r"
      by (auto simp: x split: if_splits)
    show ?thesis
    proof (cases c')
      case carry: True
      with ih have full: "Suc (freeRank fxs szs as) = freeProd fxs szs" by simp
      show ?thesis
      proof (cases fx)
        case True
        with full c carry show ?thesis by (simp add: x)
      next
        case False
        with \<open>fx \<or> \<not> Suc a < sz\<close> a have "Suc a = sz" by simp
        then have "Suc (a + sz * freeRank fxs szs as) = sz * Suc (freeRank fxs szs as)"
          by simp
        with full False c carry show ?thesis by (simp add: x)
      qed
    next
      case False
      with ih have r: "in_range szs r" "agree fxs (tl p) r"
        "freeRank fxs szs r = Suc (freeRank fxs szs as)"
        by simp_all
      from True a have sz: "\<not> fx \<Longrightarrow> Suc a = sz" by simp
      from a have "0 < sz" by simp
      with r sz a Cons.prems(2) c False show ?thesis
        by (cases p; cases fx) (auto simp: x x')
    qed
  qed
qed

lemma freeRank_inj:
  assumes "length fxs = length szs" and "length p = length szs"
    and "in_range szs x" and "in_range szs y" and "agree fxs p x" and "agree fxs p y"
    and "freeRank fxs szs x = freeRank fxs szs y"
  shows "x = y"
  using assms
proof (induction fxs szs arbitrary: x y p rule: list_induct2)
  case Nil
  then show ?case by simp
next
  case (Cons fx fxs sz szs)
  from Cons.prems obtain a as where x: "x = a # as" and a: "a < sz" and as: "in_range szs as"
    by auto
  from Cons.prems obtain b bs where y: "y = b # bs" and b: "b < sz" and bs: "in_range szs bs"
    by auto
  from Cons.prems(1) obtain q qs where p: "p = q # qs" and qs: "length qs = length szs"
    by (cases p) auto
  from Cons.prems(4,5) have ag: "agree fxs qs as" "agree fxs qs bs"
    by (simp_all add: x y p)
  show ?case
  proof (cases fx)
    case True
    with Cons.prems(4,5) have "a = b" by (simp add: x y p)
    moreover from True Cons.prems(6) have "freeRank fxs szs as = freeRank fxs szs bs"
      by (simp add: x y)
    ultimately show ?thesis
      using Cons.IH [OF qs as bs ag] by (simp add: x y)
  next
    case False
    with Cons.prems(6)
    have eq: "a + sz * freeRank fxs szs as = b + sz * freeRank fxs szs bs"
      by (simp add: x y)
    then have "(a + sz * freeRank fxs szs as) mod sz = (b + sz * freeRank fxs szs bs) mod sz"
      by simp
    with a b have ab: "a = b" by simp
    with eq a have "freeRank fxs szs as = freeRank fxs szs bs" by simp
    with Cons.IH [OF qs as bs ag] ab show ?thesis
      by (simp add: x y)
  qed
qed

lemma freeRank_unfixed:
  "length x = length szs \<Longrightarrow> freeRank (replicate (length szs) False) szs x = sub2ind szs x"
  by (induction x szs rule: list_induct2) simp_all

lemma freeProd_unfixed: "freeProd (replicate (length szs) False) szs = prod_list szs"
  by (induction szs) simp_all

lemma agree_unfixed: "agree (replicate n False) p x"
proof (induction n arbitrary: p x)
  case 0
  then show ?case by simp
next
  case (Suc n)
  then show ?case by (cases p; cases x) simp_all
qed

lemma it_at_advance:
  assumes len: "length fxs = length szs" and at: "it_at vs fxs szs p r it"
    and r: "r < freeProd fxs szs"
  shows "it_at vs fxs szs p (Suc r) (advance it)"
proof -
  from at r have frame: "it_vars it = vs" "it_fixed it = fxs" "it_sizes it = szs"
    and x: "in_range szs (it_subInd it)" "agree fxs p (it_subInd it)"
    and rank: "freeRank fxs szs (it_subInd it) = r"
    by (simp_all add: it_at_def)
  obtain x' c where inc: "increment fxs szs (it_subInd it) = (x', c)"
    by (cases "increment fxs szs (it_subInd it)")
  have adv: "advance it = it\<lparr>it_subInd := x', it_ind := sub2ind szs x', it_finished := c\<rparr>"
    using inc frame by (simp add: advance_def)
  note ok = increment_ok [OF len x inc]
  show ?thesis
  proof (cases c)
    case True
    with ok rank have "Suc r = freeProd fxs szs" by simp
    with True frame show ?thesis
      by (simp add: it_at_def adv)
  next
    case False
    with ok rank have x': "in_range szs x'" "agree fxs p x'" "freeRank fxs szs x' = Suc r"
      by simp_all
    from freeRank_less [OF len x'(1)] x'(3) have "Suc r < freeProd fxs szs" by simp
    with False x' frame show ?thesis
      by (simp add: it_at_def adv)
  qed
qed

lemma it_loop_rule:
  assumes len: "length fxs = length szs"
    and at: "it_at vs fxs szs p r it" and r: "r \<le> freeProd fxs szs"
    and inv: "I r s"
    and step: "\<And>r' it' s'. r \<le> r' \<Longrightarrow> r' < freeProd fxs szs \<Longrightarrow> it_at vs fxs szs p r' it'
                 \<Longrightarrow> I r' s' \<Longrightarrow> \<exists>s''. body it' s' = (None, s'') \<and> I (Suc r') s''"
  shows "\<exists>s'. it_loop body it s = (None, s') \<and> I (freeProd fxs szs) s'"
  using at r inv step
proof (induction "freeProd fxs szs - r" arbitrary: r it s)
  case 0
  then have "r = freeProd fxs szs" by simp
  with "0.prems"(1) have "\<not> hasNext it"
    by (simp add: it_at_def hasNext_def)
  with "0.prems"(3) \<open>r = freeProd fxs szs\<close> show ?case
    by (subst it_loop.simps) simp
next
  case (Suc n)
  then have r: "r < freeProd fxs szs" by simp
  with Suc.prems(1) have next_it: "hasNext it"
    by (simp add: it_at_def hasNext_def)
  from Suc.prems(4) [OF le_refl r Suc.prems(1) Suc.prems(3)]
  obtain s1 where body: "body it s = (None, s1)" and inv1: "I (Suc r) s1"
    by blast
  have at1: "it_at vs fxs szs p (Suc r) (advance it)"
    by (rule it_at_advance [OF len Suc.prems(1) r])
  have n: "n = freeProd fxs szs - Suc r"
    using Suc.hyps(2) by simp
  have r1: "Suc r \<le> freeProd fxs szs"
    using r by simp
  have step1: "\<exists>s''. body it' s' = (None, s'') \<and> I (Suc r') s''"
    if "Suc r \<le> r'" "r' < freeProd fxs szs" "it_at vs fxs szs p r' it'" "I r' s'"
    for r' it' s'
    using Suc.prems(4) [of r' it' s'] that by simp
  from Suc.hyps(1) [OF n at1 r1 inv1 step1]
  obtain s' where "it_loop body (advance it) s1 = (None, s')" "I (freeProd fxs szs) s'"
    by blast
  with next_it body show ?case
    by (subst it_loop.simps) simp
qed

lemma in_range_zeros: "0 \<notin> set szs \<Longrightarrow> in_range szs (replicate (length szs) 0)"
  by (induction szs) simp_all

lemma sub2ind_zeros: "sub2ind szs (replicate (length szs) 0) = 0"
  by (induction szs) simp_all

lemma it_at_new:
  assumes "0 \<notin> set (size_i g)" and "length (size_i g) = length (vars_i g)"
  shows "it_at (vars_i g) (replicate (length (size_i g)) False) (size_i g) p 0
           (newDomainIterator g)"
proof -
  have "freeRank (replicate (length (size_i g)) False) (size_i g)
          (replicate (length (size_i g)) 0) = 0"
    by (simp add: freeRank_unfixed sub2ind_zeros)
  with assms in_range_zeros [OF assms(1)] freeProd_pos [OF assms(1)] show ?thesis
    by (simp add: it_at_def newDomainIterator_def agree_unfixed sub2ind_zeros
        flip: assms(2))
qed

text \<open>
  The rule for a loop over all the tuples of a function \<open>g\<close>: the iterator stands at
  each tuple in turn, its linear index counting up from 0.
\<close>

lemma it_loop_unfixed:
  assumes pos: "0 \<notin> set (size_i g)" and len: "length (size_i g) = length (vars_i g)"
    and inv: "I 0 s"
    and step: "\<And>it' s'. it_vars it' = vars_i g \<Longrightarrow> in_range (size_i g) (it_subInd it')
                 \<Longrightarrow> it_ind it' = sub2ind (size_i g) (it_subInd it')
                 \<Longrightarrow> I (it_ind it') s'
                 \<Longrightarrow> \<exists>s''. body it' s' = (None, s'') \<and> I (Suc (it_ind it')) s''"
  shows "\<exists>s'. it_loop body (newDomainIterator g) s = (None, s') \<and> I (prod_list (size_i g)) s'"
proof -
  let ?fxs = "replicate (length (size_i g)) False"
  have l: "length ?fxs = length (size_i g)" by simp
  have at: "it_at (vars_i g) ?fxs (size_i g) [] 0 (newDomainIterator g)"
    by (rule it_at_new [OF pos len])
  have step': "\<exists>s''. body it' s' = (None, s'') \<and> I (Suc r') s''"
    if "0 \<le> r'" "r' < freeProd ?fxs (size_i g)" "it_at (vars_i g) ?fxs (size_i g) [] r' it'"
      "I r' s'" for r' it' s'
  proof -
    from that(2,3) have x: "it_vars it' = vars_i g" "in_range (size_i g) (it_subInd it')"
      "it_ind it' = sub2ind (size_i g) (it_subInd it')"
      "freeRank ?fxs (size_i g) (it_subInd it') = r'"
      by (simp_all add: it_at_def)
    from x(2,4) have "sub2ind (size_i g) (it_subInd it') = r'"
      by (simp add: freeRank_unfixed in_range_length)
    with x(3) have "it_ind it' = r'" by simp
    with step [OF x(1,2,3)] that(4) show ?thesis by simp
  qed
  from it_loop_rule [where I = I and body = body, OF l at _ inv step']
  show ?thesis
    by (simp add: freeProd_unfixed)
qed

section \<open>Tuples and their restrictions\<close>

lemma restrict_tuple_self:
  "length x = length vs \<Longrightarrow> distinct vs \<Longrightarrow> restrict_tuple vs x vs = x"
proof (induction x vs rule: list_induct2)
  case Nil
  then show ?case by (simp add: restrict_tuple_def)
next
  case (Cons a as v vs)
  then have "v \<notin> set vs" and ih: "restrict_tuple vs as vs = as" by simp_all
  from restrict_tuple_Cons_notin [OF this(1), of vs a as] ih
  have "restrict_tuple (v # vs) (a # as) vs = as" by simp
  then show ?case
    by (simp add: restrict_tuple_def coord_Cons)
qed

lemma coord_less:
  "in_range (map g vs) x \<Longrightarrow> v \<in> set vs \<Longrightarrow> coord vs x v < g v"
proof (induction vs arbitrary: x)
  case Nil
  then show ?case by simp
next
  case (Cons w vs)
  then obtain a as where "x = a # as" "a < g w" "in_range (map g vs) as"
    by auto
  with Cons show ?case
    by (cases "v = w") (auto simp: coord_Cons)
qed

lemma increment_all_fixed: "\<forall>b\<in>set fxs. b \<Longrightarrow> increment fxs szs x = (x, True)"
  by (induction fxs szs x rule: increment.induct) auto

lemma coord_fun:
  "coord vs vals = (\<lambda>v. case map_of (zip vs vals) v of None \<Rightarrow> 0 | Some i \<Rightarrow> i)"
  by (rule ext) (simp add: coord_def split: option.split)

lemma condition_it_new:
  "condition_it (newDomainIterator f) vs vals =
     \<lparr>it_vars = vars_i f, it_sizes = size_i f,
      it_subInd = restrict_tuple vs vals (vars_i f),
      it_ind = sub2ind (size_i f) (restrict_tuple vs vals (vars_i f)),
      it_fixed = map (\<lambda>v. map_of (zip vs vals) v \<noteq> None) (vars_i f),
      it_finished = False\<rparr>"
  by (simp add: condition_it_def newDomainIterator_def Let_def zip_replicate2
      restrict_tuple_def coord_fun comp_def)

lemma std_includes_refl: "std_includes xs xs"
  by (induction xs) simp_all

lemma wf_fun_sizes:
  "wf_fun reg f \<Longrightarrow> size_i f = map (\<lambda>v. the (reg v)) (vars_i f)"
proof -
  assume "wf_fun reg f"
  then have "map reg (vars_i f) = map Some (size_i f)"
    by (simp add: wf_fun_def)
  then have "map the (map reg (vars_i f)) = map the (map Some (size_i f))"
    by simp
  then show ?thesis by (simp add: comp_def)
qed

lemma wf_fun_length: "wf_fun reg f \<Longrightarrow> length (size_i f) = length (vars_i f)"
  by (simp add: wf_fun_sizes)

section \<open>Marginalisation onto the same domain\<close>

text \<open>
  C10: when the variable list of \<open>outFun\<close> is the variable list of \<open>inFun\<close>,
  \<^verbatim>\<open>marginal\<close> makes \<open>outFun\<close> a pointwise copy of \<open>inFun\<close>, whatever the aggregate:
  each conditioned inner iteration visits one cell only.
\<close>

theorem marginal_same_domain_copies:
  assumes wf_in: "wf_fun reg inFun" and wf_out: "wf_fun reg outFun"
    and same: "vars_i outFun = vars_i inFun"
  shows "\<exists>out'. marginal inFun aggregate outFun = (None, out')
       \<and> vars_i out' = vars_i outFun \<and> size_i out' = size_i outFun
       \<and> domainSize out' = domainSize inFun
       \<and> (\<forall>k<domainSize inFun. \<exists>c. at_ind out' k = Inr c \<and> at_ind inFun k = Inr c)"
proof -
  let ?vs = "vars_i inFun" and ?szs = "size_i inFun"
  let ?P = "prod_list ?szs"
  from wf_in wf_out same have sizes: "size_i outFun = ?szs"
    by (simp add: wf_fun_sizes)
  from wf_in have dist: "distinct ?vs" and pos: "0 \<notin> set ?szs"
    and nvals: "length (values_i inFun) = ?P"
    by (simp_all add: wf_fun_def)
  have len: "length ?szs = length ?vs"
    by (rule wf_fun_length [OF wf_in])
  from wf_out sizes have nout: "length (values_i outFun) = ?P"
    by (simp add: wf_fun_def)
  let ?inner = "\<lambda>inIt result.
       case at_ind inFun (getInd inIt) of
         Inl e \<Rightarrow> (Some e, result)
       | Inr v \<Rightarrow> (None, aggregate result v)"
  let ?body = "\<lambda>outIt out.
       let inIt = condition_on (newDomainIterator inFun) outIt in
       case at_ind inFun (getInd inIt) of
         Inl e \<Rightarrow> (Some e, out)
       | Inr first \<Rightarrow>
           (case it_loop ?inner (advance inIt) first of
              (Some e, result) \<Rightarrow> (Some e, out)
            | (None, result) \<Rightarrow> assign out (getInd outIt) result)"
  let ?I = "\<lambda>r s. vars_i s = ?vs \<and> size_i s = ?szs \<and> length (values_i s) = ?P
                \<and> (\<forall>k<r. values_i s ! k = values_i inFun ! k)"
  have step: "\<exists>s''. ?body it' s' = (None, s'') \<and> ?I (Suc (it_ind it')) s''"
    if v: "it_vars it' = vars_i outFun" and x: "in_range (size_i outFun) (it_subInd it')"
      and ind: "it_ind it' = sub2ind (size_i outFun) (it_subInd it')" and inv: "?I (it_ind it') s'"
    for it' s'
  proof -
    let ?x = "it_subInd it'"
    let ?inIt = "condition_on (newDomainIterator inFun) it'"
    from x sizes len have lx: "length ?x = length ?vs"
      by (simp add: in_range_length)
    from sub2ind_less [OF x] ind sizes have k: "it_ind it' < ?P" by simp
    have fixed: "map (\<lambda>v. map_of (zip ?vs ?x) v \<noteq> None) ?vs = map (\<lambda>v. True) ?vs"
      using lx by (auto simp: map_of_zip_is_None)
    have inIt: "?inIt = \<lparr>it_vars = ?vs, it_sizes = ?szs, it_subInd = ?x, it_ind = it_ind it',
        it_fixed = map (\<lambda>v. True) ?vs, it_finished = False\<rparr>"
      using restrict_tuple_self [OF lx dist] fixed
      by (simp add: condition_on_def condition_it_new getVars_def getSubInd_def v same ind sizes)
    have first: "at_ind inFun (getInd ?inIt) = Inr (values_i inFun ! it_ind it')"
      using k nvals by (simp add: inIt getInd_def at_ind_def)
    have "\<not> hasNext (advance ?inIt)"
      by (simp add: inIt advance_def increment_all_fixed hasNext_def)
    then have inner: "it_loop ?inner (advance ?inIt) c = (None, c)" for c
      by (subst it_loop.simps) simp
    from inv k have "assign s' (getInd it') (values_i inFun ! it_ind it') =
        (None, s'\<lparr>values_i := (values_i s')[it_ind it' := values_i inFun ! it_ind it']\<rparr>)"
      by (simp add: assign_def getInd_def)
    with first inner have body: "?body it' s' =
        (None, s'\<lparr>values_i := (values_i s')[it_ind it' := values_i inFun ! it_ind it']\<rparr>)"
      by (simp add: Let_def)
    from inv k have "?I (Suc (it_ind it'))
        (s'\<lparr>values_i := (values_i s')[it_ind it' := values_i inFun ! it_ind it']\<rparr>)"
      by (auto simp: less_Suc_eq nth_list_update)
    with body show ?thesis by blast
  qed
  from wf_out have pos_out: "0 \<notin> set (size_i outFun)"
    by (simp add: wf_fun_def)
  have len_out: "length (size_i outFun) = length (vars_i outFun)"
    by (rule wf_fun_length [OF wf_out])
  have inv0: "?I 0 outFun"
    using same sizes nout by simp
  have "\<exists>s'. it_loop ?body (newDomainIterator outFun) outFun = (None, s')
          \<and> ?I (prod_list (size_i outFun)) s'"
    by (rule it_loop_unfixed [where I = ?I and body = ?body, OF pos_out len_out inv0 step])
  then obtain out' where loop: "it_loop ?body (newDomainIterator outFun) outFun = (None, out')"
    and fin: "?I ?P out'"
    unfolding sizes by blast
  have m: "marginal inFun aggregate outFun = (None, out')"
    using loop by (simp add: marginal_def same std_includes_refl)
  from fin nvals have vals: "values_i out' = values_i inFun"
    by (intro nth_equalityI) simp_all
  have cells: "\<forall>k<domainSize inFun. \<exists>c. at_ind out' k = Inr c \<and> at_ind inFun k = Inr c"
    by (simp add: at_ind_def domainSize_def vals)
  from fin same sizes have dom: "vars_i out' = vars_i outFun" "size_i out' = size_i outFun"
    by simp_all
  have "domainSize out' = domainSize inFun"
    by (simp add: domainSize_def vals)
  with m dom cells show ?thesis
    by (intro exI [where x = out'] conjI)
qed


theorem marginal_same_domain_copies_witness:
  "wf_fun [1 \<mapsto> 2, 2 \<mapsto> 3]
      \<lparr>vars_i = [1, 2], size_i = [2, 3], values_i = [0, 1, 10, 11, 20, 21]\<rparr>
   \<and> wf_fun [1 \<mapsto> 2, 2 \<mapsto> 3]
      \<lparr>vars_i = [1, 2], size_i = [2, 3], values_i = [0, 0, 0, 0, 0, 0]\<rparr>
   \<and> (\<exists>out'. marginal \<lparr>vars_i = [1, 2], size_i = [2, 3], values_i = [0, 1, 10, 11, 20, 21]\<rparr>
                 (\<lambda>a b. a + b)
                 \<lparr>vars_i = [1, 2], size_i = [2, 3], values_i = [0, 0, 0, 0, 0, 0]\<rparr>
               = (None, out')
          \<and> at_ind out' 3 = Inr 11)"
proof -
  let ?reg = "[1 \<mapsto> 2, 2 \<mapsto> 3] :: registry"
  let ?f = "\<lparr>vars_i = [1, 2], size_i = [2, 3], values_i = [0, 1, 10, 11, 20, 21]\<rparr>"
  let ?g = "\<lparr>vars_i = [1, 2], size_i = [2, 3], values_i = [0, 0, 0, 0, 0, 0]\<rparr>"
  have h1: "wf_fun ?reg ?f" by (simp add: wf_fun_def)
  have h2: "wf_fun ?reg ?g" by (simp add: wf_fun_def)
  have h3: "vars_i ?g = vars_i ?f" by simp
  from marginal_same_domain_copies [OF h1 h2 h3, of "\<lambda>a b. a + b"]
  obtain out' where m: "marginal ?f (\<lambda>a b. a + b) ?g = (None, out')"
    and cells: "\<forall>k<domainSize ?f. \<exists>c. at_ind out' k = Inr c \<and> at_ind ?f k = Inr c"
    by blast
  have "(3::nat) < domainSize ?f" by (simp add: domainSize_def)
  with cells have "\<exists>c. at_ind out' 3 = Inr c \<and> at_ind ?f 3 = Inr c" by blast
  then have "at_ind out' 3 = Inr 11" by (auto simp: at_ind_def)
  with h1 h2 m show ?thesis by blast
qed

section \<open>Expansion of the domain\<close>

lemma distinct_remdups_adj_sorted: "sorted xs \<Longrightarrow> distinct (remdups_adj xs)"
proof (induction xs rule: remdups_adj.induct)
  case 1
  then show ?case by simp
next
  case (2 x)
  then show ?case by simp
next
  case (3 x y xs)
  show ?case
  proof (cases "x = y")
    case True
    with 3 show ?thesis by simp
  next
    case False
    with "3.prems" have "x \<notin> set (y # xs)" by auto
    with False 3 show ?thesis by simp
  qed
qed

lemma remdups_adj_sort: "remdups_adj (sort xs) = sorted_list_of_set (set xs)"
  by (rule sorted_distinct_set_unique)
     (simp_all add: distinct_remdups_adj_sorted)

lemma union_not_longer:
  assumes "distinct xs" and "length (sorted_list_of_set (set xs \<union> set ys)) \<le> length xs"
  shows "set ys \<subseteq> set xs"
proof -
  have "card (set xs \<union> set ys) = length (sorted_list_of_set (set xs \<union> set ys))"
    by simp
  also have "\<dots> \<le> card (set xs)"
    using assms by (simp add: distinct_card)
  finally have "set xs \<union> set ys = set xs"
    by (intro card_seteq [symmetric]) simp_all
  then show ?thesis by blast
qed

lemma in_range_restrict:
  assumes "in_range (map g outer) x" and "set vs \<subseteq> set outer"
  shows "in_range (map g vs) (restrict_tuple outer x vs)"
proof -
  have "\<forall>v\<in>set vs. coord outer x v < g v"
    using assms coord_less [of g outer x] by blast
  then show ?thesis
    unfolding in_range_def restrict_tuple_def list_all2_map1 list_all2_map2
    by (simp add: list_all2_same)
qed

lemma at_super_restrict:
  assumes "wf_fun reg f" and "sorted outer" and "set (vars_i f) \<subseteq> set outer"
    and "in_range (map (\<lambda>v. the (reg v)) outer) x"
  shows "at_super f outer x =
           Inr (values_i f ! sub2ind (size_i f) (restrict_tuple outer x (vars_i f)))"
    and "in_range (size_i f) (restrict_tuple outer x (vars_i f))"
proof -
  from assms(1) have wf: "sorted (vars_i f)" "distinct (vars_i f)"
    "length (values_i f) = prod_list (size_i f)"
    by (simp_all add: wf_fun_def)
  have len: "length (size_i f) = length (vars_i f)"
    by (rule wf_fun_length [OF assms(1)])
  from assms(4) have lx: "length x = length outer"
    by (simp add: in_range_length)
  show rng: "in_range (size_i f) (restrict_tuple outer x (vars_i f))"
    using in_range_restrict [OF assms(4) assms(3)] by (simp add: wf_fun_sizes [OF assms(1)])
  from superIndex_restrict [OF wf(1,2) len wf(3) assms(2) assms(3) lx rng]
  show "at_super f outer x =
      Inr (values_i f ! sub2ind (size_i f) (restrict_tuple outer x (vars_i f)))"
    by (simp add: at_super_def)
qed

lemma at_sub_in_range:
  assumes "length (values_i f) = prod_list (size_i f)" and "in_range (size_i f) x"
  shows "at_sub f x = Inr (values_i f ! sub2ind (size_i f) x)"
  using sub2ind_less [OF assms(2)] assms(1) by (simp add: at_sub_def at_ind_def)

text \<open>A function built over registered variables with positive sizes is well formed.\<close>

lemma newDiscreteFunction_wf:
  assumes "sorted vs" and "distinct vs" and "\<forall>v\<in>set vs. \<exists>s. reg v = Some s \<and> 0 < s"
    and "prod_list (map (\<lambda>v. the (reg v)) vs) < 2 ^ bits"
  shows "newDiscreteFunction bits reg vs val =
           Inr \<lparr>vars_i = vs, size_i = map (\<lambda>v. the (reg v)) vs,
                values_i = replicate (prod_list (map (\<lambda>v. the (reg v)) vs)) val\<rparr>"
    and "wf_fun reg \<lparr>vars_i = vs, size_i = map (\<lambda>v. the (reg v)) vs,
                values_i = replicate (prod_list (map (\<lambda>v. the (reg v)) vs)) val\<rparr>"
proof -
  from assms(3) have "\<forall>v\<in>set vs. isRegistered reg v"
    by (auto simp: isRegistered_def)
  from newDiscreteFunction_registered [OF this assms(4), of val] assms(1)
  show "newDiscreteFunction bits reg vs val =
           Inr \<lparr>vars_i = vs, size_i = map (\<lambda>v. the (reg v)) vs,
                values_i = replicate (prod_list (map (\<lambda>v. the (reg v)) vs)) val\<rparr>"
    by (simp add: sorted_sort_id)
  from assms(3) have "map reg vs = map Some (map (\<lambda>v. the (reg v)) vs)"
    by auto
  moreover from assms(3) have "0 \<notin> set (map (\<lambda>v. the (reg v)) vs)"
    by auto
  ultimately show "wf_fun reg \<lparr>vars_i = vs, size_i = map (\<lambda>v. the (reg v)) vs,
                values_i = replicate (prod_list (map (\<lambda>v. the (reg v)) vs)) val\<rparr>"
    using assms(1,2) by (simp add: wf_fun_def)
qed

lemma wf_fun_registered:
  assumes "wf_fun reg f" and "v \<in> set (vars_i f)"
  shows "\<exists>s. reg v = Some s \<and> 0 < s"
proof -
  from assms(2) obtain j where j: "j < length (vars_i f)" "vars_i f ! j = v"
    by (auto simp: in_set_conv_nth)
  from assms(1) have m: "map reg (vars_i f) = map Some (size_i f)" and p: "0 \<notin> set (size_i f)"
    by (simp_all add: wf_fun_def)
  from m have l: "length (size_i f) = length (vars_i f)"
    by (metis length_map)
  from m j l have "reg v = Some (size_i f ! j)"
    by (metis nth_map)
  moreover from p j l have "0 < size_i f ! j"
    by (metis nth_mem neq0_conv)
  ultimately show ?thesis by blast
qed

text \<open>
  The bound on the number of tuples in the statement below is needed. With a 32-bit
  \<^verbatim>\<open>ValIndex\<close>, a function over variable 1 of size 65536 and the new variable 2 of size
  65536, the constructor called by \<^verbatim>\<open>expand\<close> yields a function without cells
  (\<open>newDiscreteFunction_wraps\<close>), and the first pass of the loop accesses a cell that is
  not there.
\<close>

lemma expand_wraps:
  "expand 32 [1 \<mapsto> 65536, 2 \<mapsto> 65536]
      \<lparr>vars_i = [1], size_i = [65536], values_i = replicate 65536 0\<rparr> [2]
     = Inl OutOfRange"
proof -
  let ?f = "\<lparr>vars_i = [1], size_i = [65536], values_i = replicate 65536 0\<rparr>"
  let ?r0 = "\<lparr>vars_i = [1, 2], size_i = [65536, 65536], values_i = []\<rparr>"
  have u: "remdups_adj (sort (vars_i ?f @ [2])) = [1, 2]"
    by simp
  have a: "at_super ?f [1, 2] [0, 0] = Inr 0"
    by (simp add: at_super_def superIndex_def)
  have s: "getSubInd (newDomainIterator ?r0) = [0, 0]"
    by (simp add: getSubInd_def newDomainIterator_def numeral_2_eq_2)
  have i: "getInd (newDomainIterator ?r0) = 0"
    by (simp add: getInd_def newDomainIterator_def)
  have h: "hasNext (newDomainIterator ?r0)"
    by (simp add: hasNext_def newDomainIterator_def)
  have l: "it_loop
        (\<lambda>k result.
           case at_super ?f [1, 2] (getSubInd k) of
             Inl e \<Rightarrow> (Some e, result)
           | Inr v \<Rightarrow> assign result (getInd k) v)
        (newDomainIterator ?r0) ?r0 = (Some OutOfRange, ?r0)"
    apply (subst it_loop.simps)
    apply (simp only: h s i a if_True sum.case)
    apply (simp add: assign_def)
    done
  show ?thesis
    unfolding expand_def Let_def u newDiscreteFunction_wraps sum.case l
    by simp
qed

text \<open>
  C1: for a well-formed function \<open>f\<close> and a list \<open>V\<close> of registered variables (with
  non-empty domains), such that the number of tuples over the union of the domain of
  \<open>f\<close> with \<open>V\<close> fits \<^verbatim>\<open>ValIndex\<close>, \<^verbatim>\<open>expand\<close> yields a function \<open>f'\<close> whose domain is the
  sorted, duplicate-free union, and for every index tuple \<open>x\<close> over the domain of \<open>f'\<close>
  the value \<open>f'(x)\<close> is the value of \<open>f\<close> at the restriction of \<open>x\<close> to the domain of
  \<open>f\<close>.
\<close>

theorem expand_correct:
  assumes wf: "wf_fun reg f" and regV: "\<forall>v\<in>set V. \<exists>s. reg v = Some s \<and> 0 < s"
    and fits: "prod_list (map (\<lambda>v. the (reg v))
                 (sorted_list_of_set (set (vars_i f) \<union> set V))) < 2 ^ bits"
  shows "\<exists>f'. expand bits reg f V = Inr f'
       \<and> vars_i f' = sorted_list_of_set (set (vars_i f) \<union> set V)
       \<and> wf_fun reg f'
       \<and> (\<forall>x. in_range (size_i f') x \<longrightarrow>
             (\<exists>c. at_sub f' x = Inr c
                \<and> at_sub f (restrict_tuple (vars_i f') x (vars_i f)) = Inr c))"
proof -
  let ?newVar = "sorted_list_of_set (set (vars_i f) \<union> set V)"
  let ?g = "\<lambda>v. the (reg v)"
  let ?nsz = "map ?g ?newVar"
  let ?P = "prod_list ?nsz"
  from wf have f: "sorted (vars_i f)" "distinct (vars_i f)"
    "length (values_i f) = prod_list (size_i f)"
    by (simp_all add: wf_fun_def)
  have newVar: "remdups_adj (sort (vars_i f @ V)) = ?newVar"
    by (simp add: remdups_adj_sort)
  show ?thesis
  proof (cases "length ?newVar \<le> length (vars_i f)")
    case True
    from union_not_longer [OF f(2) True] have "set (vars_i f) \<union> set V = set (vars_i f)"
      by blast
    with f have same: "?newVar = vars_i f"
      by (simp add: sorted_list_of_set.idem_if_sorted_distinct)
    have ex: "expand bits reg f V = Inr f"
      using True by (simp add: expand_def newVar Let_def)
    have "\<exists>c. at_sub f x = Inr c \<and> at_sub f (restrict_tuple (vars_i f) x (vars_i f)) = Inr c"
      if "in_range (size_i f) x" for x
    proof -
      from that have "length x = length (vars_i f)"
        by (simp add: in_range_length wf_fun_length [OF wf])
      from restrict_tuple_self [OF this f(2)] at_sub_in_range [OF f(3) that] show ?thesis
        by simp
    qed
    with ex same wf show ?thesis by simp
  next
    case False
    have regNew: "\<forall>v\<in>set ?newVar. \<exists>s. reg v = Some s \<and> 0 < s"
      using regV wf_fun_registered [OF wf] by auto
    let ?r0 = "\<lparr>vars_i = ?newVar, size_i = ?nsz, values_i = replicate ?P 0\<rparr>"
    have r0: "newDiscreteFunction bits reg ?newVar 0 = Inr ?r0" and wf0: "wf_fun reg ?r0"
      using newDiscreteFunction_wf [OF _ _ regNew fits] by simp_all
    let ?body = "\<lambda>k result.
        case at_super f ?newVar (getSubInd k) of
          Inl e \<Rightarrow> (Some e, result)
        | Inr v \<Rightarrow> assign result (getInd k) v"
    let ?F = "\<lambda>x. values_i f ! sub2ind (size_i f) (restrict_tuple ?newVar x (vars_i f))"
    let ?I = "\<lambda>r s. vars_i s = ?newVar \<and> size_i s = ?nsz \<and> length (values_i s) = ?P
        \<and> (\<forall>x. in_range ?nsz x \<and> sub2ind ?nsz x < r \<longrightarrow> values_i s ! sub2ind ?nsz x = ?F x)"
    have sub: "set (vars_i f) \<subseteq> set ?newVar" by auto
    have step: "\<exists>s''. ?body it' s' = (None, s'') \<and> ?I (Suc (it_ind it')) s''"
      if v: "it_vars it' = vars_i ?r0" and x: "in_range (size_i ?r0) (it_subInd it')"
        and ind: "it_ind it' = sub2ind (size_i ?r0) (it_subInd it')"
        and inv: "?I (it_ind it') s'"
      for it' s'
    proof -
      let ?x = "it_subInd it'" and ?k = "it_ind it'"
      from x have x': "in_range ?nsz ?x" by simp
      from ind have k: "?k = sub2ind ?nsz ?x" by simp
      from sub2ind_less [OF x'] k have kP: "?k < ?P" by simp
      have rd: "at_super f ?newVar (getSubInd it') = Inr (?F ?x)"
        using at_super_restrict(1) [OF wf _ sub x'] by (simp add: getSubInd_def)
      let ?s = "s'\<lparr>values_i := (values_i s')[?k := ?F ?x]\<rparr>"
      from inv kP have "assign s' (getInd it') (?F ?x) = (None, ?s)"
        by (simp add: assign_def getInd_def)
      with rd have body: "?body it' s' = (None, ?s)" by simp
      have "values_i ?s ! sub2ind ?nsz y = ?F y"
        if y: "in_range ?nsz y" and less: "sub2ind ?nsz y < Suc ?k" for y
      proof (cases "sub2ind ?nsz y = ?k")
        case True
        with k have "y = ?x" using sub2ind_inj [OF y x'] by simp
        with True inv kP show ?thesis by simp
      next
        case False
        with less have "sub2ind ?nsz y < ?k" by simp
        with inv y have "values_i s' ! sub2ind ?nsz y = ?F y" by blast
        with False show ?thesis by simp
      qed
      with inv have "?I (Suc ?k) ?s" by simp
      with body show ?thesis by blast
    qed
    from wf0 have pos0: "0 \<notin> set (size_i ?r0)" by (simp add: wf_fun_def)
    have len0: "length (size_i ?r0) = length (vars_i ?r0)" by simp
    have inv0: "?I 0 ?r0" by simp
    have "\<exists>s'. it_loop ?body (newDomainIterator ?r0) ?r0 = (None, s')
            \<and> ?I (prod_list (size_i ?r0)) s'"
      by (rule it_loop_unfixed [where I = ?I and body = ?body, OF pos0 len0 inv0 step])
    then obtain f' where loop: "it_loop ?body (newDomainIterator ?r0) ?r0 = (None, f')"
      and fin: "?I ?P f'"
      by auto
    have ex: "expand bits reg f V = Inr f'"
      using False loop by (simp add: expand_def newVar Let_def r0)
    from fin wf0 have wf': "wf_fun reg f'"
      by (simp add: wf_fun_def)
    have "\<exists>c. at_sub f' x = Inr c \<and> at_sub f (restrict_tuple (vars_i f') x (vars_i f)) = Inr c"
      if "in_range (size_i f') x" for x
    proof -
      from that fin have x: "in_range ?nsz x" by simp
      from sub2ind_less [OF x] fin have "values_i f' ! sub2ind ?nsz x = ?F x"
        using x by simp
      moreover from fin have "length (values_i f') = prod_list (size_i f')" by simp
      from at_sub_in_range [OF this that] fin
      have "at_sub f' x = Inr (values_i f' ! sub2ind ?nsz x)" by simp
      moreover have "at_sub f (restrict_tuple ?newVar x (vars_i f)) = Inr (?F x)"
        by (rule at_sub_in_range [OF f(3) at_super_restrict(2) [OF wf _ sub x]]) simp
      ultimately show ?thesis using fin by simp
    qed
    with ex fin wf' show ?thesis by simp
  qed
qed


theorem expand_correct_witness:
  "wf_fun [1 \<mapsto> 2, 2 \<mapsto> 3] \<lparr>vars_i = [1], size_i = [2], values_i = [10, 20]\<rparr>
   \<and> prod_list (map (\<lambda>v. the ([1 \<mapsto> 2, 2 \<mapsto> 3] v)) [1, 2::nat]) < (2::nat) ^ 32
   \<and> (\<exists>f'. expand 32 [1 \<mapsto> 2, 2 \<mapsto> 3]
                \<lparr>vars_i = [1], size_i = [2], values_i = [10, 20]\<rparr> [2]
               = Inr f'
          \<and> vars_i f' = [1, 2] \<and> size_i f' = [2, 3]
          \<and> (\<exists>c. at_sub f' [1, 2] = Inr c
                \<and> at_sub \<lparr>vars_i = [1], size_i = [2], values_i = [10, 20]\<rparr> [1] = Inr c))"
proof -
  let ?reg = "[1 \<mapsto> 2, 2 \<mapsto> 3] :: registry"
  let ?f = "\<lparr>vars_i = [1], size_i = [2], values_i = [10, 20]\<rparr>"
  have h1: "wf_fun ?reg ?f" by (simp add: wf_fun_def)
  have h2: "\<forall>v\<in>set [2]. \<exists>s. ?reg v = Some s \<and> 0 < s" by simp
  have u: "sorted_list_of_set (set (vars_i ?f) \<union> set [2]) = [1, 2]"
    using remdups_adj_sort [of "[1, 2::nat]"] by simp
  have b: "prod_list (map (\<lambda>v. the (?reg v)) [1, 2]) < (2::nat) ^ 32" by simp
  then have h3: "prod_list (map (\<lambda>v. the (?reg v))
      (sorted_list_of_set (set (vars_i ?f) \<union> set [2]))) < (2::nat) ^ 32"
    unfolding u .
  from expand_correct [where reg = ?reg and f = ?f and V = "[2]" and bits = 32, OF h1 h2 h3]
  obtain f' where ex: "expand 32 ?reg ?f [2] = Inr f'"
    and vs: "vars_i f' = [1, 2]" and wf': "wf_fun ?reg f'"
    and cells: "\<forall>x. in_range (size_i f') x \<longrightarrow>
             (\<exists>c. at_sub f' x = Inr c
                \<and> at_sub ?f (restrict_tuple (vars_i f') x (vars_i ?f)) = Inr c)"
    unfolding u by blast
  from wf_fun_sizes [OF wf'] vs have sz: "size_i f' = [2, 3]" by simp
  then have "in_range (size_i f') [1, 2]" by simp
  with cells have "\<exists>c. at_sub f' [1, 2] = Inr c
      \<and> at_sub ?f (restrict_tuple (vars_i f') [1, 2] (vars_i ?f)) = Inr c"
    by blast
  moreover have "restrict_tuple (vars_i f') [1, 2] (vars_i ?f) = [1]"
    by (simp add: vs restrict_tuple_def coord_def)
  ultimately show ?thesis
    using h1 b ex vs sz by simp
qed

section \<open>Conditioned iterators\<close>

lemma agree_refl: "agree fxs p p"
proof (induction p arbitrary: fxs)
  case Nil
  then show ?case by simp
next
  case (Cons a p)
  then show ?case by (cases fxs) simp_all
qed

lemma freeRank_free_zero:
  "\<forall>v\<in>set vs. \<not> Q v \<longrightarrow> h v = 0 \<Longrightarrow> freeRank (map Q vs) (map g vs) (map h vs) = 0"
  by (induction vs) simp_all

lemma coord_notin: "length vs = length vals \<Longrightarrow> v \<notin> set vs \<Longrightarrow> coord vs vals v = 0"
proof -
  assume "length vs = length vals" and "v \<notin> set vs"
  then have "map_of (zip vs vals) v = None" by simp
  then show ?thesis by (simp add: coord_def)
qed

lemma coord_in_zip:
  "length vs = length vals \<Longrightarrow> v \<in> set vs \<Longrightarrow> (v, coord vs vals v) \<in> set (zip vs vals)"
proof -
  assume len: "length vs = length vals" and "v \<in> set vs"
  then obtain i where "map_of (zip vs vals) v = Some i"
    by (cases "map_of (zip vs vals) v") simp_all
  then show ?thesis
    by (simp add: coord_def map_of_SomeD)
qed

text \<open>
  The iterator over the domain of \<open>f\<close>, conditioned on the variables \<open>pv\<close> with the
  values \<open>pvals\<close>, stands at the first of the tuples it visits.
\<close>

lemma it_at_conditioned:
  assumes wf: "wf_fun reg f" and len: "length pv = length pvals"
    and rng: "\<forall>v\<in>set (vars_i f). v \<in> set pv \<longrightarrow> coord pv pvals v < the (reg v)"
  shows "it_at (vars_i f) (map (\<lambda>v. v \<in> set pv) (vars_i f)) (size_i f)
           (restrict_tuple pv pvals (vars_i f)) 0 (condition_it (newDomainIterator f) pv pvals)"
    and "in_range (size_i f) (restrict_tuple pv pvals (vars_i f))"
proof -
  let ?vs = "vars_i f" and ?g = "\<lambda>v. the (reg v)"
  let ?p = "restrict_tuple pv pvals ?vs"
  have sz: "size_i f = map ?g ?vs"
    by (rule wf_fun_sizes [OF wf])
  from wf have pos: "0 \<notin> set (size_i f)" by (simp add: wf_fun_def)
  have "coord pv pvals v < ?g v" if "v \<in> set ?vs" for v
  proof (cases "v \<in> set pv")
    case True
    with rng that show ?thesis by simp
  next
    case False
    from wf_fun_registered [OF wf that] have "0 < ?g v" by auto
    with coord_notin [OF len False] show ?thesis by simp
  qed
  then show p: "in_range (size_i f) ?p"
    unfolding sz in_range_def restrict_tuple_def list_all2_map1 list_all2_map2
    by (simp add: list_all2_same)
  have fixed: "map (\<lambda>v. map_of (zip pv pvals) v \<noteq> None) ?vs = map (\<lambda>v. v \<in> set pv) ?vs"
    using map_of_zip_is_None [OF len] by simp
  have "freeRank (map (\<lambda>v. v \<in> set pv) ?vs) (map ?g ?vs) (map (coord pv pvals) ?vs) = 0"
    by (rule freeRank_free_zero) (simp add: coord_notin [OF len])
  then have rank: "freeRank (map (\<lambda>v. v \<in> set pv) ?vs) (size_i f) ?p = 0"
    by (simp add: sz restrict_tuple_def)
  have it: "condition_it (newDomainIterator f) pv pvals =
     \<lparr>it_vars = ?vs, it_sizes = size_i f, it_subInd = ?p, it_ind = sub2ind (size_i f) ?p,
      it_fixed = map (\<lambda>v. v \<in> set pv) ?vs, it_finished = False\<rparr>"
    by (simp only: condition_it_new fixed)
  from p rank freeProd_pos [OF pos]
  show "it_at ?vs (map (\<lambda>v. v \<in> set pv) ?vs) (size_i f) ?p 0
      (condition_it (newDomainIterator f) pv pvals)"
    by (simp add: it_at_def it agree_refl)
qed

text \<open>
  The rank of a tuple among those an iterator visits is the linear index of its free
  coordinates in a function over the free variables.
\<close>

lemma freeRank_restrict:
  assumes "length x = length vs" and "distinct vs"
  shows "freeRank (map Q vs) (map g vs) x =
           sub2ind (map g (filter (\<lambda>v. \<not> Q v) vs))
             (restrict_tuple vs x (filter (\<lambda>v. \<not> Q v) vs))"
  using assms
proof (induction x vs rule: list_induct2)
  case Nil
  then show ?case by (simp add: restrict_tuple_def)
next
  case (Cons a as v vs)
  then have "v \<notin> set (filter (\<lambda>v. \<not> Q v) vs)" by simp
  from restrict_tuple_Cons_notin [OF this, of vs a as]
  have tl: "restrict_tuple (v # vs) (a # as) (filter (\<lambda>v. \<not> Q v) vs) =
      restrict_tuple vs as (filter (\<lambda>v. \<not> Q v) vs)" .
  have hd: "restrict_tuple (v # vs) (a # as) (v # ws) =
      a # restrict_tuple (v # vs) (a # as) ws" for ws
    by (simp add: restrict_tuple_def coord_Cons)
  from Cons show ?case
    by (cases "Q v") (simp_all add: tl hd)
qed

lemma freeProd_filter:
  "freeProd (map Q vs) (map g vs) = prod_list (map g (filter (\<lambda>v. \<not> Q v) vs))"
  by (induction vs) simp_all

section \<open>Extension of a tuple by pinned values\<close>

lemma extend_tuple_props:
  assumes "in_range (map g (filter (\<lambda>v. m v = None) vs)) y"
    and "\<forall>v\<in>set vs. \<forall>i. m v = Some i \<longrightarrow> i < g v"
  shows "in_range (map g vs) (extend_tuple vs m y)"
    and "agree (map (\<lambda>v. m v \<noteq> None) vs)
           (map (\<lambda>v. case m v of None \<Rightarrow> 0 | Some i \<Rightarrow> i) vs) (extend_tuple vs m y)"
    and "freeRank (map (\<lambda>v. m v \<noteq> None) vs) (map g vs) (extend_tuple vs m y) =
           sub2ind (map g (filter (\<lambda>v. m v = None) vs)) y"
  using assms
proof (induction vs arbitrary: y)
  case Nil
  {
    case 1 then show ?case by simp
  next
    case 2 then show ?case by simp
  next
    case 3 then show ?case by simp
  }
next
  case (Cons v vs)
  {
    case 1
    show ?case
    proof (cases "m v")
      case None
      with 1 obtain a as where "y = a # as" "a < g v"
        "in_range (map g (filter (\<lambda>v. m v = None) vs)) as"
        by auto
      with None 1 Cons.IH(1) [of as] show ?thesis by simp
    next
      case (Some i)
      with 1 Cons.IH(1) [of y] show ?thesis by simp
    qed
  next
    case 2
    show ?case
    proof (cases "m v")
      case None
      with 2 obtain a as where "y = a # as" "a < g v"
        "in_range (map g (filter (\<lambda>v. m v = None) vs)) as"
        by auto
      with None 2 Cons.IH(2) [of as] show ?thesis by simp
    next
      case (Some i)
      with 2 Cons.IH(2) [of y] show ?thesis by simp
    qed
  next
    case 3
    show ?case
    proof (cases "m v")
      case None
      with 3 obtain a as where "y = a # as" "a < g v"
        "in_range (map g (filter (\<lambda>v. m v = None) vs)) as"
        by auto
      with None 3 Cons.IH(3) [of as] show ?thesis by simp
    next
      case (Some i)
      with 3 Cons.IH(3) [of y] show ?thesis by simp
    qed
  }
qed

lemma extend_tuple_unpinned:
  "length y = length vs \<Longrightarrow> \<forall>v\<in>set vs. m v = None \<Longrightarrow> extend_tuple vs m y = y"
  by (induction y vs rule: list_induct2) simp_all

section \<open>Conditioning\<close>

lemma vals_in_range_coord:
  assumes "vals_in_range reg V vals" and "v \<in> set V"
  shows "coord V vals v < the (reg v)"
proof -
  from assms(1) have len: "length V = length vals"
    and all: "\<forall>(v, i)\<in>set (zip V vals). case reg v of None \<Rightarrow> False | Some s \<Rightarrow> i < s"
    by (simp_all add: vals_in_range_def list_all2_iff)
  from coord_in_zip [OF len assms(2)] all
  have "case reg v of None \<Rightarrow> False | Some s \<Rightarrow> coord V vals v < s"
    by blast
  then show ?thesis
    by (cases "reg v") simp_all
qed

lemma prod_list_filter_le:
  "\<forall>x\<in>set xs. 0 < g x \<Longrightarrow> prod_list (map g (filter P xs)) \<le> prod_list (map g xs)"
  for g :: "'a \<Rightarrow> nat"
proof (induction xs)
  case Nil
  then show ?case by simp
next
  case (Cons x xs)
  then have ih: "prod_list (map g (filter P xs)) \<le> prod_list (map g xs)" and x: "0 < g x"
    by simp_all
  show ?case
  proof (cases "P x")
    case True
    with ih show ?thesis by simp
  next
    case False
    from False have "prod_list (map g (filter P (x # xs))) = prod_list (map g (filter P xs))"
      by simp
    also have "\<dots> \<le> prod_list (map g xs)"
      by (rule ih)
    also from x have "\<dots> \<le> g x * prod_list (map g xs)"
      by (cases "g x") simp_all
    also have "\<dots> = prod_list (map g (x # xs))"
      by simp
    finally show ?thesis .
  qed
qed

text \<open>
  C3: for a well-formed function \<open>f\<close> (whose number of cells is a \<^verbatim>\<open>ValIndex\<close> value, as
  \<^verbatim>\<open>domainSize\<close> returns it), a sorted list \<open>V\<close> of distinct variables and a
  parallel list \<open>vals\<close> of values in range, \<^verbatim>\<open>condition\<close> yields a function \<open>f'\<close> over the
  variables of \<open>f\<close> that are not in \<open>V\<close>, and for every tuple \<open>y\<close> over the domain of \<open>f'\<close>
  the value \<open>f'(y)\<close> is the value of \<open>f\<close> at the tuple that extends \<open>y\<close> by the values
  given for the variables of \<open>V\<close> in the domain of \<open>f\<close>; when no variable of \<open>V\<close> is in the
  domain of \<open>f\<close>, the function is returned unchanged.
\<close>

theorem condition_correct:
  assumes wf: "wf_fun reg f" and sV: "sorted V" and dV: "distinct V"
    and vr: "vals_in_range reg V vals"
    and fits: "domainSize f < 2 ^ bits"
  shows "\<exists>f'. condition bits reg f V vals = Inr f'
       \<and> vars_i f' = filter (\<lambda>v. v \<notin> set V) (vars_i f)
       \<and> wf_fun reg f'
       \<and> (\<forall>y. in_range (size_i f') y \<longrightarrow>
             (\<exists>c. at_sub f' y = Inr c
                \<and> at_sub f (extend_tuple (vars_i f) (map_of (zip V vals)) y) = Inr c))
       \<and> (set V \<inter> set (vars_i f) = {} \<longrightarrow> f' = f)"
proof -
  let ?vs = "vars_i f" and ?sz = "size_i f" and ?g = "\<lambda>v. the (reg v)"
  let ?Q = "\<lambda>v. v \<in> set V"
  let ?fx = "map ?Q ?vs"
  let ?m = "map_of (zip V vals)"
  let ?p = "restrict_tuple V vals ?vs"
  let ?it = "condition_it (newDomainIterator f) V vals"
  let ?free = "filter (\<lambda>v. v \<notin> set V) ?vs"
  from vr have lenV: "length V = length vals"
    by (simp add: vals_in_range_def list_all2_lengthD)
  have mNone: "?m v = None \<longleftrightarrow> v \<notin> set V" for v
    by (rule map_of_zip_is_None [OF lenV])
  from wf have f: "sorted ?vs" "distinct ?vs" "length (values_i f) = prod_list ?sz"
    by (simp_all add: wf_fun_def)
  have sz: "?sz = map ?g ?vs" by (rule wf_fun_sizes [OF wf])
  have len: "length ?fx = length ?sz" by (simp add: sz)
  have lenp: "length ?p = length ?sz" by (simp add: sz restrict_tuple_def)
  have rng: "\<forall>v\<in>set ?vs. v \<in> set V \<longrightarrow> coord V vals v < ?g v"
    using vals_in_range_coord [OF vr] by blast
  note at0 = it_at_conditioned(1) [OF wf lenV rng]
  from at0 have it: "it_vars ?it = ?vs" "it_fixed ?it = ?fx"
    by (simp_all add: it_at_def)
  have count: "fixedCount ?it = 0 \<longleftrightarrow> set V \<inter> set ?vs = {}"
    by (auto simp: fixedCount_def it filter_empty_conv)
  have "isFixed ?it v \<longleftrightarrow> v \<in> set ?vs \<and> v \<in> set V" for v
    by (auto simp: isFixed_def it zip_map2 zip_same_conv_map)
  then have free: "filter (\<lambda>v. \<not> isFixed ?it v) ?vs = ?free"
    by (intro filter_cong) simp_all
  have pinned: "\<forall>v\<in>set ?vs. \<forall>i. ?m v = Some i \<longrightarrow> i < ?g v"
  proof (intro ballI allI impI)
    fix v i assume v: "v \<in> set ?vs" and i: "?m v = Some i"
    then have "v \<in> set V" using mNone [of v] by simp
    with rng v have "coord V vals v < ?g v" by simp
    with i show "i < ?g v" by (simp add: coord_def)
  qed
  have freem: "filter (\<lambda>v. ?m v = None) ?vs = ?free"
    by (simp add: mNone)
  have fxm: "map (\<lambda>v. ?m v \<noteq> None) ?vs = ?fx"
    by (simp add: mNone)
  have pm: "map (\<lambda>v. case ?m v of None \<Rightarrow> 0 | Some i \<Rightarrow> i) ?vs = ?p"
    by (simp add: restrict_tuple_def coord_fun)
  show ?thesis
  proof (cases "fixedCount ?it = 0")
    case True
    with count have none: "set V \<inter> set ?vs = {}" by simp
    then have same: "?free = ?vs" by (auto simp: filter_id_conv)
    from True have ex: "condition bits reg f V vals = Inr f"
      by (simp add: condition_def Let_def)
    have "\<exists>c. at_sub f y = Inr c \<and> at_sub f (extend_tuple ?vs ?m y) = Inr c"
      if "in_range ?sz y" for y
    proof -
      from that have "length y = length ?vs"
        by (simp add: in_range_length wf_fun_length [OF wf])
      moreover from none have "\<forall>v\<in>set ?vs. ?m v = None"
        using mNone by blast
      ultimately have "extend_tuple ?vs ?m y = y"
        by (rule extend_tuple_unpinned)
      with at_sub_in_range [OF f(3) that] show ?thesis by simp
    qed
    with ex same wf show ?thesis by simp
  next
    case False
    with count have some: "set V \<inter> set ?vs \<noteq> {}" by simp
    let ?fsz = "map ?g ?free"
    let ?P = "prod_list ?fsz"
    let ?r0 = "\<lparr>vars_i = ?free, size_i = ?fsz, values_i = replicate ?P 0\<rparr>"
    have free_ok: "sorted ?free" "distinct ?free"
      using f by (simp_all add: sorted_wrt_filter)
    have regFree: "\<forall>v\<in>set ?free. \<exists>s. reg v = Some s \<and> 0 < s"
      using wf_fun_registered [OF wf] by simp
    have "\<forall>v\<in>set ?vs. \<exists>s. reg v = Some s \<and> 0 < s"
      using wf_fun_registered [OF wf] by simp
    then have "\<forall>v\<in>set ?vs. 0 < ?g v"
      by force
    then have "prod_list (map ?g ?free) \<le> prod_list (map ?g ?vs)"
      by (rule prod_list_filter_le)
    also have "\<dots> = domainSize f"
      using f(3) by (simp add: domainSize_def sz)
    finally have fitsFree: "prod_list (map ?g ?free) < 2 ^ bits"
      using fits by simp
    have r0: "newDiscreteFunction bits reg ?free 0 = Inr ?r0" and wf0: "wf_fun reg ?r0"
      using newDiscreteFunction_wf [OF free_ok regFree fitsFree] by simp_all
    have prod: "freeProd ?fx ?sz = ?P"
      using freeProd_filter [where Q = ?Q and g = ?g and vs = ?vs] by (simp add: sz)
    let ?body = "\<lambda>it result.
        case at_ind f (getInd it) of
          Inl e \<Rightarrow> (Some e, result)
        | Inr v \<Rightarrow> assign_super result (getVars it) (getSubInd it) v"
    let ?I = "\<lambda>r s. vars_i s = ?free \<and> size_i s = ?fsz \<and> length (values_i s) = ?P
        \<and> (\<forall>x. in_range ?sz x \<and> agree ?fx ?p x \<and> freeRank ?fx ?sz x < r
              \<longrightarrow> values_i s ! freeRank ?fx ?sz x = values_i f ! sub2ind ?sz x)"
    have step: "\<exists>s''. ?body it' s' = (None, s'') \<and> ?I (Suc r') s''"
      if "0 \<le> r'" and r': "r' < freeProd ?fx ?sz" and at: "it_at ?vs ?fx ?sz ?p r' it'"
        and inv: "?I r' s'"
      for r' it' s'
    proof -
      let ?x = "it_subInd it'"
      from at r' have x: "in_range ?sz ?x" "agree ?fx ?p ?x" "freeRank ?fx ?sz ?x = r'"
        and ind: "it_ind it' = sub2ind ?sz ?x" and vars: "it_vars it' = ?vs"
        by (simp_all add: it_at_def)
      from x(1) have lx: "length ?x = length ?vs"
        by (simp add: in_range_length sz)
      from sub2ind_less [OF x(1)] f(3) ind
      have rd: "at_ind f (getInd it') = Inr (values_i f ! sub2ind ?sz ?x)"
        by (simp add: at_ind_def getInd_def)
      have rank: "sub2ind ?fsz (restrict_tuple ?vs ?x ?free) = r'"
        using freeRank_restrict [OF lx f(2), where Q = ?Q and g = ?g] x(3) by (simp add: sz)
      from x(1) have "in_range (map ?g ?vs) ?x" by (simp add: sz)
      then have rng': "in_range ?fsz (restrict_tuple ?vs ?x ?free)"
        by (rule in_range_restrict) simp
      from inv have s': "vars_i s' = ?free" "size_i s' = ?fsz" "length (values_i s') = ?P"
        by simp_all
      have "superIndex s' ?vs ?x = Inr (sub2ind (size_i s') (restrict_tuple ?vs ?x (vars_i s')))"
        by (rule superIndex_restrict) (simp_all add: s' free_ok f lx rng')
      with rank have "superIndex s' ?vs ?x = Inr r'"
        by (simp add: s')
      then have wr: "assign_super s' (getVars it') (getSubInd it') c =
          (None, s'\<lparr>values_i := (values_i s')[r' := c]\<rparr>)" for c
        by (simp add: assign_super_def getVars_def getSubInd_def vars)
      let ?s = "s'\<lparr>values_i := (values_i s')[r' := values_i f ! sub2ind ?sz ?x]\<rparr>"
      from rd wr have body: "?body it' s' = (None, ?s)" by simp
      from r' prod s' have r'P: "r' < length (values_i s')" by simp
      have "values_i ?s ! freeRank ?fx ?sz y = values_i f ! sub2ind ?sz y"
        if y: "in_range ?sz y" "agree ?fx ?p y" and less: "freeRank ?fx ?sz y < Suc r'" for y
      proof (cases "freeRank ?fx ?sz y = r'")
        case True
        with x(3) have "y = ?x"
          using freeRank_inj [OF len lenp y(1) x(1) y(2) x(2)] by simp
        with True r'P show ?thesis by simp
      next
        case False
        with less have "freeRank ?fx ?sz y < r'" by simp
        with inv y have "values_i s' ! freeRank ?fx ?sz y = values_i f ! sub2ind ?sz y"
          by blast
        with False show ?thesis by simp
      qed
      with s' have "?I (Suc r') ?s" by simp
      with body show ?thesis by blast
    qed
    have inv0: "?I 0 ?r0" by simp
    have "\<exists>s'. it_loop ?body ?it ?r0 = (None, s') \<and> ?I (freeProd ?fx ?sz) s'"
      by (rule it_loop_rule [where I = ?I and body = ?body, OF len at0 _ inv0 step]) simp_all
    then obtain f' where loop: "it_loop ?body ?it ?r0 = (None, f')" and fin: "?I ?P f'"
      unfolding prod by blast
    have ex: "condition bits reg f V vals = Inr f'"
      using False loop by (simp add: condition_def Let_def free r0)
    from fin wf0 have wf': "wf_fun reg f'"
      by (simp add: wf_fun_def)
    have "\<exists>c. at_sub f' y = Inr c \<and> at_sub f (extend_tuple ?vs ?m y) = Inr c"
      if "in_range (size_i f') y" for y
    proof -
      let ?x = "extend_tuple ?vs ?m y"
      from that fin have y: "in_range (map ?g (filter (\<lambda>v. ?m v = None) ?vs)) y"
        by (simp add: freem)
      note e = extend_tuple_props [OF y pinned]
      from e(1) have x1: "in_range ?sz ?x" by (simp add: sz)
      from e(2) have x2: "agree ?fx ?p ?x" by (simp only: fxm pm)
      from e(3) have x3: "freeRank ?fx ?sz ?x = sub2ind ?fsz y"
        by (simp only: fxm freem sz)
      from that fin have "sub2ind ?fsz y < ?P"
        using sub2ind_less [of ?fsz y] by simp
      with fin x1 x2 x3 have "values_i f' ! sub2ind ?fsz y = values_i f ! sub2ind ?sz ?x"
        by metis
      moreover from fin have "length (values_i f') = prod_list (size_i f')" by simp
      from at_sub_in_range [OF this that] fin
      have "at_sub f' y = Inr (values_i f' ! sub2ind ?fsz y)" by simp
      moreover have "at_sub f ?x = Inr (values_i f ! sub2ind ?sz ?x)"
        by (rule at_sub_in_range [OF f(3) x1])
      ultimately show ?thesis by simp
    qed
    with ex fin wf' some show ?thesis by simp
  qed
qed


theorem condition_correct_witness:
  "wf_fun [1 \<mapsto> 2, 2 \<mapsto> 3]
      \<lparr>vars_i = [1, 2], size_i = [2, 3], values_i = [0, 1, 10, 11, 20, 21]\<rparr>
   \<and> sorted [2::nat] \<and> distinct [2::nat] \<and> vals_in_range [1 \<mapsto> 2, 2 \<mapsto> 3] [2] [1]
   \<and> domainSize \<lparr>vars_i = [1, 2], size_i = [2, 3], values_i = [0, 1, 10, 11, 20, 21]\<rparr>
       < 2 ^ 32
   \<and> (\<exists>f'. condition 32 [1 \<mapsto> 2, 2 \<mapsto> 3]
                \<lparr>vars_i = [1, 2], size_i = [2, 3], values_i = [0, 1, 10, 11, 20, 21]\<rparr> [2] [1]
               = Inr f'
          \<and> vars_i f' = [1] \<and> size_i f' = [2]
          \<and> (\<exists>c. at_sub f' [1] = Inr c
                \<and> at_sub \<lparr>vars_i = [1, 2], size_i = [2, 3],
                           values_i = [0, 1, 10, 11, 20, 21]\<rparr> [1, 1] = Inr c))"
proof -
  let ?reg = "[1 \<mapsto> 2, 2 \<mapsto> 3] :: registry"
  let ?f = "\<lparr>vars_i = [1, 2], size_i = [2, 3], values_i = [0, 1, 10, 11, 20, 21]\<rparr>"
  have h1: "wf_fun ?reg ?f" by (simp add: wf_fun_def)
  have h2: "sorted [2::nat]" by simp
  have h3: "distinct [2::nat]" by simp
  have h4: "vals_in_range ?reg [2] [1]" by (simp add: vals_in_range_def)
  have h5: "domainSize ?f < 2 ^ 32" by (simp add: domainSize_def)
  from condition_correct
         [where reg = ?reg and f = ?f and V = "[2]" and vals = "[1]" and bits = 32,
          OF h1 h2 h3 h4 h5]
  obtain f'
    where ex: "condition 32 ?reg ?f [2] [1] = Inr f'"
    and vs: "vars_i f' = filter (\<lambda>v. v \<notin> set [2]) (vars_i ?f)" and wf': "wf_fun ?reg f'"
    and cells: "\<forall>y. in_range (size_i f') y \<longrightarrow>
             (\<exists>c. at_sub f' y = Inr c
                \<and> at_sub ?f (extend_tuple (vars_i ?f) (map_of (zip [2] [1])) y) = Inr c)"
    by blast
  from vs have vs': "vars_i f' = [1]" by simp
  from wf_fun_sizes [OF wf'] vs' have sz: "size_i f' = [2]" by simp
  then have "in_range (size_i f') [1]" by simp
  with cells have "\<exists>c. at_sub f' [1] = Inr c
      \<and> at_sub ?f (extend_tuple (vars_i ?f) (map_of (zip [2] [1])) [1]) = Inr c"
    by blast
  moreover have "extend_tuple (vars_i ?f) (map_of (zip [2] [1])) [1] = [1, 1]"
    by simp
  ultimately show ?thesis
    using h1 h2 h3 h4 h5 ex vs' sz by simp
qed

section \<open>Tuples that restrict to a given tuple\<close>

lemma coord_neq: "w \<noteq> v \<Longrightarrow> coord (v # vs) (a # as) w = coord vs as w"
  by (simp add: coord_Cons)

lemma agree_iff_coord:
  assumes "length x = length vs" and "distinct vs"
  shows "agree (map Q vs) (map h vs) x \<longleftrightarrow> (\<forall>v\<in>set vs. Q v \<longrightarrow> h v = coord vs x v)"
  using assms
proof (induction x vs rule: list_induct2)
  case Nil
  then show ?case by simp
next
  case (Cons a as v vs)
  then have ih: "agree (map Q vs) (map h vs) as \<longleftrightarrow> (\<forall>w\<in>set vs. Q w \<longrightarrow> h w = coord vs as w)"
    by simp
  from Cons.prems have "\<forall>w\<in>set vs. coord (v # vs) (a # as) w = coord vs as w"
    by (auto simp: coord_Cons)
  with ih show ?case
    by (auto simp: coord_Cons)
qed

lemma agree_iff_restrict:
  assumes "distinct vs" and "length x = length vs" and "distinct ovs"
    and "set ovs \<subseteq> set vs" and "length y = length ovs"
  shows "agree (map (\<lambda>v. v \<in> set ovs) vs) (restrict_tuple ovs y vs) x
           \<longleftrightarrow> restrict_tuple vs x ovs = y"
proof -
  have "agree (map (\<lambda>v. v \<in> set ovs) vs) (restrict_tuple ovs y vs) x
      \<longleftrightarrow> (\<forall>v\<in>set vs. v \<in> set ovs \<longrightarrow> coord ovs y v = coord vs x v)"
    unfolding restrict_tuple_def by (rule agree_iff_coord [OF assms(2) assms(1)])
  also have "\<dots> \<longleftrightarrow> (\<forall>v\<in>set ovs. coord vs x v = coord ovs y v)"
    using assms(4) by auto
  also have "\<dots> \<longleftrightarrow> map (coord vs x) ovs = map (coord ovs y) ovs"
    by simp
  also have "map (coord ovs y) ovs = y"
    using restrict_tuple_self [OF assms(5) assms(3)] by (simp add: restrict_tuple_def)
  finally show ?thesis
    by (simp add: restrict_tuple_def)
qed

lemma finite_in_range: "finite {x. in_range szs x}"
proof (induction szs)
  case Nil
  then show ?case by simp
next
  case (Cons s szs)
  have "{x. in_range (s # szs) x} = (\<lambda>(a, xs). a # xs) ` ({..<s} \<times> {xs. in_range szs xs})"
    by (auto simp: image_iff)
  with Cons show ?case by simp
qed

lemma std_max_ge: "a \<le> std_max a b" "b \<le> std_max a b"
  by (simp_all add: std_max_def)

lemma std_max_cases: "std_max a b = a \<or> std_max a b = b"
  by (simp add: std_max_def)

section \<open>Marginalisation by maximisation\<close>

text \<open>
  The inner loop of \<^verbatim>\<open>marginal\<close> with \<^verbatim>\<open>std::max\<close>: seeded with the value at the first
  tuple that an iterator over \<open>f\<close> conditioned on \<open>(pv, pvals)\<close> visits, it returns the
  greatest value of \<open>f\<close> at the tuples that agree with the pinned values.
\<close>

lemma max_inner_loop:
  assumes wf: "wf_fun reg f" and len: "length pv = length pvals"
    and rng: "\<forall>v\<in>set (vars_i f). v \<in> set pv \<longrightarrow> coord pv pvals v < the (reg v)"
  defines "it0 \<equiv> condition_it (newDomainIterator f) pv pvals"
    and "fxs \<equiv> map (\<lambda>v. v \<in> set pv) (vars_i f)"
    and "p \<equiv> restrict_tuple pv pvals (vars_i f)"
  defines "T \<equiv> {values_i f ! sub2ind (size_i f) x | x. in_range (size_i f) x \<and> agree fxs p x}"
  shows "\<exists>first acc. at_ind f (getInd it0) = Inr first
       \<and> it_loop (\<lambda>inIt result.
                    case at_ind f (getInd inIt) of
                      Inl e \<Rightarrow> (Some e, result)
                    | Inr v \<Rightarrow> (None, std_max result v)) (advance it0) first = (None, acc)
       \<and> acc \<in> T \<and> (\<forall>c\<in>T. c \<le> acc)"
proof -
  let ?vs = "vars_i f" and ?sz = "size_i f"
  let ?F = "\<lambda>x. values_i f ! sub2ind ?sz x"
  let ?P = "freeProd fxs ?sz"
  let ?inner = "\<lambda>inIt result.
       case at_ind f (getInd inIt) of
         Inl e \<Rightarrow> (Some e, result)
       | Inr v \<Rightarrow> (None, std_max result v)"
  let ?T = "\<lambda>r. {?F x | x. in_range ?sz x \<and> agree fxs p x \<and> freeRank fxs ?sz x < r}"
  let ?J = "\<lambda>r acc. acc \<in> ?T r \<and> (\<forall>c\<in>?T r. c \<le> acc)"
  from wf have nvals: "length (values_i f) = prod_list ?sz" and pos: "0 \<notin> set ?sz"
    by (simp_all add: wf_fun_def)
  have lfx: "length fxs = length ?sz"
    by (simp add: fxs_def wf_fun_length [OF wf])
  have lp: "length p = length ?sz"
    by (simp add: p_def restrict_tuple_def wf_fun_length [OF wf])
  have at0: "it_at ?vs fxs ?sz p 0 it0" and p: "in_range ?sz p"
    unfolding it0_def fxs_def p_def by (rule it_at_conditioned [OF wf len rng])+
  have P: "0 < ?P" by (rule freeProd_pos [OF pos])
  with at0 have it0: "it_ind it0 = sub2ind ?sz p" "it_subInd it0 = p"
    and rank0: "freeRank fxs ?sz p = 0"
    unfolding it0_def fxs_def p_def
    by (simp_all add: it_at_def condition_it_new)
  from sub2ind_less [OF p] nvals it0
  have first: "at_ind f (getInd it0) = Inr (?F p)"
    by (simp add: at_ind_def getInd_def)
  have at1: "it_at ?vs fxs ?sz p (Suc 0) (advance it0)"
    by (rule it_at_advance [OF lfx at0 P])
  have J1: "?J (Suc 0) (?F p)"
  proof
    from p rank0 show "?F p \<in> ?T (Suc 0)"
      using agree_refl [of fxs p] by auto
    show "\<forall>c\<in>?T (Suc 0). c \<le> ?F p"
    proof
      fix c assume "c \<in> ?T (Suc 0)"
      then obtain x where c: "c = ?F x" and x: "in_range ?sz x" "agree fxs p x"
        "freeRank fxs ?sz x = 0"
        by auto
      from freeRank_inj [OF lfx lp x(1) p x(2) agree_refl] x(3) rank0 have "x = p" by simp
      with c show "c \<le> ?F p" by simp
    qed
  qed
  have step: "\<exists>s''. ?inner it' acc = (None, s'') \<and> ?J (Suc r') s''"
    if "Suc 0 \<le> r'" and r': "r' < ?P" and at: "it_at ?vs fxs ?sz p r' it'" and inv: "?J r' acc"
    for r' it' acc
  proof -
    let ?x = "it_subInd it'"
    from at r' have x: "in_range ?sz ?x" "agree fxs p ?x" "freeRank fxs ?sz ?x = r'"
      and ind: "it_ind it' = sub2ind ?sz ?x"
      by (simp_all add: it_at_def)
    from sub2ind_less [OF x(1)] nvals ind
    have body: "?inner it' acc = (None, std_max acc (?F ?x))"
      by (simp add: at_ind_def getInd_def)
    have mono: "?T r' \<subseteq> ?T (Suc r')" by auto
    from x have new: "?F ?x \<in> ?T (Suc r')" by auto
    have "std_max acc (?F ?x) \<in> ?T (Suc r')"
      using std_max_cases [of acc "?F ?x"] inv mono new by auto
    moreover have "\<forall>c\<in>?T (Suc r'). c \<le> std_max acc (?F ?x)"
    proof
      fix c assume "c \<in> ?T (Suc r')"
      then obtain y where c: "c = ?F y" and y: "in_range ?sz y" "agree fxs p y"
        "freeRank fxs ?sz y < Suc r'"
        by auto
      show "c \<le> std_max acc (?F ?x)"
      proof (cases "freeRank fxs ?sz y = r'")
        case True
        with x(3) have "y = ?x"
          using freeRank_inj [OF lfx lp y(1) x(1) y(2) x(2)] by simp
        with c std_max_ge(2) [of "?F ?x" acc] show ?thesis by simp
      next
        case False
        with y have "c \<in> ?T r'" using c by auto
        with inv have "c \<le> acc" by blast
        with std_max_ge(1) [of acc "?F ?x"] show ?thesis by simp
      qed
    qed
    ultimately show ?thesis using body by blast
  qed
  have "\<exists>s'. it_loop ?inner (advance it0) (?F p) = (None, s') \<and> ?J ?P s'"
    by (rule it_loop_rule [where I = ?J and body = ?inner, OF lfx at1 _ J1 step])
       (use P in simp_all)
  then obtain acc where loop: "it_loop ?inner (advance it0) (?F p) = (None, acc)"
    and fin: "?J ?P acc"
    by blast
  have "?T ?P = T"
    unfolding T_def using freeRank_less [OF lfx] by auto
  with fin have "acc \<in> T \<and> (\<forall>c\<in>T. c \<le> acc)" by simp
  with first loop show ?thesis by blast
qed

text \<open>
  C2: for well-formed functions \<open>f\<close> and \<open>out\<close> with the variables of \<open>out\<close> among those
  of \<open>f\<close>, \<^verbatim>\<open>maxMarginal\<close> returns without error and overwrites \<open>out\<close> so that, for every
  tuple \<open>y\<close> over the domain of \<open>out\<close>, \<open>out(y)\<close> is the maximum of \<open>f(x)\<close> over the tuples
  \<open>x\<close> over the domain of \<open>f\<close> whose restriction to the domain of \<open>out\<close> is \<open>y\<close>; the
  domain of \<open>out\<close> is unchanged (and \<open>f\<close> is only read).
\<close>

theorem maxMarginal_correct:
  assumes wf_f: "wf_fun reg f" and wf_o: "wf_fun reg out"
    and sub: "set (vars_i out) \<subseteq> set (vars_i f)"
  shows "\<exists>out'. maxMarginal f out = (None, out')
       \<and> vars_i out' = vars_i out \<and> size_i out' = size_i out
       \<and> (\<forall>y. in_range (size_i out) y \<longrightarrow>
             at_sub out' y =
               Inr (Max {c. \<exists>x. in_range (size_i f) x
                             \<and> restrict_tuple (vars_i f) x (vars_i out) = y
                             \<and> at_sub f x = Inr c}))"
proof -
  let ?vs = "vars_i f" and ?sz = "size_i f" and ?g = "\<lambda>v. the (reg v)"
  let ?ovs = "vars_i out" and ?osz = "size_i out"
  let ?P = "prod_list ?osz"
  let ?F = "\<lambda>x. values_i f ! sub2ind ?sz x"
  let ?S = "\<lambda>y. {c. \<exists>x. in_range ?sz x \<and> restrict_tuple ?vs x ?ovs = y \<and> at_sub f x = Inr c}"
  from wf_f have f: "sorted ?vs" "distinct ?vs" "length (values_i f) = prod_list ?sz"
    by (simp_all add: wf_fun_def)
  from wf_o have o: "sorted ?ovs" "distinct ?ovs" "length (values_i out) = ?P"
    "0 \<notin> set ?osz"
    by (simp_all add: wf_fun_def)
  have sz: "?sz = map ?g ?vs" by (rule wf_fun_sizes [OF wf_f])
  have osz: "?osz = map ?g ?ovs" by (rule wf_fun_sizes [OF wf_o])
  have olen: "length ?osz = length ?ovs" by (rule wf_fun_length [OF wf_o])
  have incl: "std_includes ?vs ?ovs"
    using std_includes_subset [OF f(1) o(1) o(2)] sub by simp
  have S: "?S y = {?F x | x. in_range ?sz x \<and> restrict_tuple ?vs x ?ovs = y}" for y
    using at_sub_in_range [OF f(3)] by auto
  have finS: "finite (?S y)" for y
  proof -
    have incl: "?S y \<subseteq> ?F ` {x. in_range ?sz x}"
      unfolding S by auto
    show ?thesis
      by (rule finite_subset [OF incl finite_imageI [OF finite_in_range]])
  qed
  let ?inner = "\<lambda>inIt result.
       case at_ind f (getInd inIt) of
         Inl e \<Rightarrow> (Some e, result)
       | Inr v \<Rightarrow> (None, std_max result v)"
  let ?body = "\<lambda>outIt out.
       let inIt = condition_on (newDomainIterator f) outIt in
       case at_ind f (getInd inIt) of
         Inl e \<Rightarrow> (Some e, out)
       | Inr first \<Rightarrow>
           (case it_loop ?inner (advance inIt) first of
              (Some e, result) \<Rightarrow> (Some e, out)
            | (None, result) \<Rightarrow> assign out (getInd outIt) result)"
  let ?I = "\<lambda>r s. vars_i s = ?ovs \<and> size_i s = ?osz \<and> length (values_i s) = ?P
      \<and> (\<forall>y. in_range ?osz y \<and> sub2ind ?osz y < r \<longrightarrow> values_i s ! sub2ind ?osz y = Max (?S y))"
  have step: "\<exists>s''. ?body it' s' = (None, s'') \<and> ?I (Suc (it_ind it')) s''"
    if v: "it_vars it' = ?ovs" and y': "in_range ?osz (it_subInd it')"
      and ind: "it_ind it' = sub2ind ?osz (it_subInd it')" and inv: "?I (it_ind it') s'"
    for it' s'
  proof -
    let ?y = "it_subInd it'" and ?k = "it_ind it'"
    let ?inIt = "condition_it (newDomainIterator f) ?ovs ?y"
    let ?fxs = "map (\<lambda>v. v \<in> set ?ovs) ?vs"
    let ?p = "restrict_tuple ?ovs ?y ?vs"
    let ?T = "{?F x | x. in_range ?sz x \<and> agree ?fxs ?p x}"
    from y' have ly: "length ?ovs = length ?y"
      by (simp add: in_range_length olen)
    from y' have "in_range (map ?g ?ovs) ?y" by (simp add: osz)
    then have rng: "\<forall>v\<in>set ?vs. v \<in> set ?ovs \<longrightarrow> coord ?ovs ?y v < ?g v"
      using coord_less [of ?g ?ovs ?y] by blast
    from max_inner_loop [OF wf_f ly rng]
    obtain first acc where first: "at_ind f (getInd ?inIt) = Inr first"
      and inner: "it_loop ?inner (advance ?inIt) first = (None, acc)"
      and acc: "acc \<in> ?T" "\<forall>c\<in>?T. c \<le> acc"
      by blast
    have "?T = ?S ?y"
    proof -
      have "agree ?fxs ?p x \<longleftrightarrow> restrict_tuple ?vs x ?ovs = ?y" if "in_range ?sz x" for x
      proof -
        from that have "length x = length ?vs"
          by (simp add: in_range_length wf_fun_length [OF wf_f])
        from agree_iff_restrict [OF f(2) this o(2) sub ly [symmetric]] show ?thesis .
      qed
      then show ?thesis unfolding S by auto
    qed
    with acc have "acc \<in> ?S ?y" "\<forall>c\<in>?S ?y. c \<le> acc" by simp_all
    with finS [of ?y] have mx: "Max (?S ?y) = acc"
      by (intro Max_eqI) auto
    from sub2ind_less [OF y'] ind have kP: "?k < ?P" by simp
    let ?s = "s'\<lparr>values_i := (values_i s')[?k := acc]\<rparr>"
    from inv kP have "assign s' (getInd it') acc = (None, ?s)"
      by (simp add: assign_def getInd_def)
    with first inner have body: "?body it' s' = (None, ?s)"
      by (simp add: Let_def condition_on_def getVars_def getSubInd_def v)
    have "values_i ?s ! sub2ind ?osz y = Max (?S y)"
      if y: "in_range ?osz y" and less: "sub2ind ?osz y < Suc ?k" for y
    proof (cases "sub2ind ?osz y = ?k")
      case True
      with ind have "y = ?y" using sub2ind_inj [OF y y'] by simp
      with True inv kP mx show ?thesis by simp
    next
      case False
      with less have "sub2ind ?osz y < ?k" by simp
      with inv y have "values_i s' ! sub2ind ?osz y = Max (?S y)" by blast
      with False show ?thesis by simp
    qed
    with inv have "?I (Suc ?k) ?s" by simp
    with body show ?thesis by blast
  qed
  have inv0: "?I 0 out" using o(3) by simp
  have "\<exists>s'. it_loop ?body (newDomainIterator out) out = (None, s') \<and> ?I ?P s'"
    by (rule it_loop_unfixed [where I = ?I and body = ?body, OF o(4) olen inv0 step])
  then obtain out' where loop: "it_loop ?body (newDomainIterator out) out = (None, out')"
    and fin: "?I ?P out'"
    by blast
  have m: "maxMarginal f out = (None, out')"
    using loop incl by (simp add: maxMarginal_def marginal_def)
  have "at_sub out' y = Inr (Max (?S y))" if y: "in_range ?osz y" for y
  proof -
    from fin have "length (values_i out') = prod_list (size_i out')" by simp
    moreover from y fin have "in_range (size_i out') y" by simp
    ultimately have "at_sub out' y = Inr (values_i out' ! sub2ind (size_i out') y)"
      by (rule at_sub_in_range)
    with fin y sub2ind_less [OF y] show ?thesis by simp
  qed
  with m fin show ?thesis by simp
qed

theorem maxMarginal_correct_witness:
  "wf_fun [1 \<mapsto> 2, 2 \<mapsto> 3]
      \<lparr>vars_i = [1, 2], size_i = [2, 3], values_i = [0, 1, 10, 11, 20, 21]\<rparr>
   \<and> wf_fun [1 \<mapsto> 2, 2 \<mapsto> 3] \<lparr>vars_i = [1], size_i = [2], values_i = [0, 0]\<rparr>
   \<and> set [1::nat] \<subseteq> set [1, 2]
   \<and> maxMarginal \<lparr>vars_i = [1, 2], size_i = [2, 3], values_i = [0, 1, 10, 11, 20, 21]\<rparr>
         \<lparr>vars_i = [1], size_i = [2], values_i = [0, 0]\<rparr>
       = (None, \<lparr>vars_i = [1], size_i = [2], values_i = [20, 21]\<rparr>)
   \<and> Max {c. \<exists>x. in_range [2, 3] x \<and> restrict_tuple [1, 2] x [1] = [1]
                \<and> at_sub \<lparr>vars_i = [1, 2], size_i = [2, 3],
                            values_i = [0, 1, 10, 11, 20, 21]\<rparr> x = Inr c} = 21"
proof -
  let ?reg = "[1 \<mapsto> 2, 2 \<mapsto> 3] :: registry"
  let ?f = "\<lparr>vars_i = [1, 2], size_i = [2, 3], values_i = [0, 1, 10, 11, 20, 21]\<rparr>"
  let ?o = "\<lparr>vars_i = [1], size_i = [2], values_i = [0, 0]\<rparr>"
  have h1: "wf_fun ?reg ?f" by (simp add: wf_fun_def)
  have h2: "wf_fun ?reg ?o" by (simp add: wf_fun_def)
  have h3: "set (vars_i ?o) \<subseteq> set (vars_i ?f)" by simp
  have run: "maxMarginal ?f ?o = (None, \<lparr>vars_i = [1], size_i = [2], values_i = [20, 21]\<rparr>)"
    by code_simp
  from maxMarginal_correct [OF h1 h2 h3] obtain out'
    where m: "maxMarginal ?f ?o = (None, out')"
    and cells: "\<forall>y. in_range (size_i ?o) y \<longrightarrow>
             at_sub out' y =
               Inr (Max {c. \<exists>x. in_range (size_i ?f) x
                             \<and> restrict_tuple (vars_i ?f) x (vars_i ?o) = y
                             \<and> at_sub ?f x = Inr c})"
    by blast
  from m run have out': "out' = \<lparr>vars_i = [1], size_i = [2], values_i = [20, 21]\<rparr>"
    by simp
  have "in_range (size_i ?o) [1]" by simp
  with cells have "at_sub out' [1] =
               Inr (Max {c. \<exists>x. in_range (size_i ?f) x
                             \<and> restrict_tuple (vars_i ?f) x (vars_i ?o) = [1]
                             \<and> at_sub ?f x = Inr c})"
    by blast
  moreover have "at_sub out' [1] = Inr 21"
    by (simp add: out' at_sub_def at_ind_def)
  ultimately have "Max {c. \<exists>x. in_range (size_i ?f) x
                             \<and> restrict_tuple (vars_i ?f) x (vars_i ?o) = [1]
                             \<and> at_sub ?f x = Inr c} = 21"
    by simp
  with h1 h2 run show ?thesis by simp
qed

section \<open>Equality of two functions\<close>

lemma set_allTuples: "set (allTuples sizes) = {x. in_range sizes x}"
proof (induction sizes)
  case Nil
  then show ?case by auto
next
  case (Cons s sizes)
  then show ?case by auto
qed

lemma withinTolerance_zero: "withinTolerance zeroRule 0 a b \<longleftrightarrow> a = b"
  by (simp add: withinTolerance_def)

lemma unionSizes_wf:
  assumes "wf_fun reg f1" and "wf_fun reg f2"
  shows "unionSizes f1 f2 = map (\<lambda>v. the (reg v)) (unionVars f1 f2)"
proof -
  have "coord (vars_i f) (size_i f) v = the (reg v)" if "wf_fun reg f" "v \<in> set (vars_i f)"
    for f v
  proof -
    from that(2) obtain j where j: "j < length (vars_i f)" "vars_i f ! j = v"
      by (auto simp: in_set_conv_nth)
    from that(1) have d: "distinct (vars_i f)" by (simp add: wf_fun_def)
    have l: "length (size_i f) = length (vars_i f)" by (rule wf_fun_length [OF that(1)])
    from restrict_tuple_self [OF l d] have "map (coord (vars_i f) (size_i f)) (vars_i f) = size_i f"
      by (simp add: restrict_tuple_def)
    with j l have "coord (vars_i f) (size_i f) v = size_i f ! j"
      by (metis nth_map)
    with wf_fun_sizes [OF that(1)] j show ?thesis by simp
  qed
  with assms show ?thesis
    by (auto simp: unionSizes_def unionVars_def)
qed

text \<open>
  For well-formed functions the broadcasted values over the union of the domains are
  cells of the functions.
\<close>

lemma broadcast_union:
  assumes "wf_fun reg f1" and "wf_fun reg f2" and "in_range (unionSizes f1 f2) x"
  shows "broadcast f1 (unionVars f1 f2) x =
           Inr (values_i f1 ! sub2ind (size_i f1) (restrict_tuple (unionVars f1 f2) x (vars_i f1)))"
    and "broadcast f2 (unionVars f1 f2) x =
           Inr (values_i f2 ! sub2ind (size_i f2) (restrict_tuple (unionVars f1 f2) x (vars_i f2)))"
proof -
  from assms(3) have x: "in_range (map (\<lambda>v. the (reg v)) (unionVars f1 f2)) x"
    by (simp add: unionSizes_wf [OF assms(1,2)])
  have u: "sorted (unionVars f1 f2)" "set (vars_i f1) \<subseteq> set (unionVars f1 f2)"
    "set (vars_i f2) \<subseteq> set (unionVars f1 f2)"
    by (simp_all add: unionVars_def)
  from assms(1) have "length (values_i f1) = prod_list (size_i f1)" by (simp add: wf_fun_def)
  from at_sub_in_range [OF this at_super_restrict(2) [OF assms(1) u(1) u(2) x]]
  show "broadcast f1 (unionVars f1 f2) x =
      Inr (values_i f1 ! sub2ind (size_i f1) (restrict_tuple (unionVars f1 f2) x (vars_i f1)))"
    by (simp add: broadcast_def)
  from assms(2) have "length (values_i f2) = prod_list (size_i f2)" by (simp add: wf_fun_def)
  from at_sub_in_range [OF this at_super_restrict(2) [OF assms(2) u(1) u(3) x]]
  show "broadcast f2 (unionVars f1 f2) x =
      Inr (values_i f2 ! sub2ind (size_i f2) (restrict_tuple (unionVars f1 f2) x (vars_i f2)))"
    by (simp add: broadcast_def)
qed

text \<open>
  C5: for well-formed functions, \<^verbatim>\<open>equalWithinTolerance\<close> with tolerance 0, and so
  \<^verbatim>\<open>operator==\<close>, returns true if and only if the broadcasted values of the two functions
  are equal at every coordinate tuple of the union of their domains.
\<close>

theorem equalWithinTolerance_zero:
  assumes "wf_fun reg f1" and "wf_fun reg f2"
  shows "(equalWithinTolerance zeroRule f1 f2 0 \<longleftrightarrow>
            (\<forall>x. in_range (unionSizes f1 f2) x \<longrightarrow>
               values_i f1 ! sub2ind (size_i f1) (restrict_tuple (unionVars f1 f2) x (vars_i f1))
             = values_i f2 ! sub2ind (size_i f2) (restrict_tuple (unionVars f1 f2) x (vars_i f2))))
       \<and> (fun_equal zeroRule f1 f2 \<longleftrightarrow> equalWithinTolerance zeroRule f1 f2 0)
       \<and> unionVars f1 f2 = sorted_list_of_set (set (vars_i f1) \<union> set (vars_i f2))"
proof -
  have "equalWithinTolerance zeroRule f1 f2 0 \<longleftrightarrow>
      (\<forall>x. in_range (unionSizes f1 f2) x \<longrightarrow>
         (case (broadcast f1 (unionVars f1 f2) x, broadcast f2 (unionVars f1 f2) x) of
            (Inr a, Inr b) \<Rightarrow> a = b
          | _ \<Rightarrow> False))"
    by (simp add: equalWithinTolerance_def list_all_iff set_allTuples withinTolerance_zero
        cong: sum.case_cong)
  also have "\<dots> \<longleftrightarrow>
      (\<forall>x. in_range (unionSizes f1 f2) x \<longrightarrow>
         values_i f1 ! sub2ind (size_i f1) (restrict_tuple (unionVars f1 f2) x (vars_i f1))
       = values_i f2 ! sub2ind (size_i f2) (restrict_tuple (unionVars f1 f2) x (vars_i f2)))"
    using broadcast_union [OF assms] by simp
  finally show ?thesis
    by (simp add: fun_equal_def unionVars_def remdups_adj_sort)
qed


theorem equalWithinTolerance_zero_witness:
  "wf_fun [1 \<mapsto> 2, 2 \<mapsto> 2] \<lparr>vars_i = [1], size_i = [2], values_i = [10, 20]\<rparr>
   \<and> wf_fun [1 \<mapsto> 2, 2 \<mapsto> 2]
        \<lparr>vars_i = [1, 2], size_i = [2, 2], values_i = [10, 20, 10, 20]\<rparr>
   \<and> fun_equal (\<lambda>a b. False) \<lparr>vars_i = [1], size_i = [2], values_i = [10, 20]\<rparr>
        \<lparr>vars_i = [1, 2], size_i = [2, 2], values_i = [10, 20, 10, 20]\<rparr>
   \<and> [10, 20] ! sub2ind [2] (restrict_tuple [1, 2] [1, 1] [1])
       = [10, 20, 10, 20::real] ! sub2ind [2, 2] (restrict_tuple [1, 2] [1, 1] [1, 2])"
proof -
  let ?reg = "[1 \<mapsto> 2, 2 \<mapsto> 2] :: registry"
  let ?f = "\<lparr>vars_i = [1], size_i = [2], values_i = [10, 20]\<rparr>"
  let ?g = "\<lparr>vars_i = [1, 2], size_i = [2, 2], values_i = [10, 20, 10, 20]\<rparr>"
  have h1: "wf_fun ?reg ?f" by (simp add: wf_fun_def)
  have h2: "wf_fun ?reg ?g" by (simp add: wf_fun_def)
  have run: "fun_equal (\<lambda>a b. False) ?f ?g" by code_simp
  have u: "unionVars ?f ?g = [1, 2]" "unionSizes ?f ?g = [2, 2]" by code_simp+
  from equalWithinTolerance_zero [OF h1 h2, of "\<lambda>a b. False"] run
  have "\<forall>x. in_range (unionSizes ?f ?g) x \<longrightarrow>
          values_i ?f ! sub2ind (size_i ?f) (restrict_tuple (unionVars ?f ?g) x (vars_i ?f))
        = values_i ?g ! sub2ind (size_i ?g) (restrict_tuple (unionVars ?f ?g) x (vars_i ?g))"
    by blast
  moreover have "in_range (unionSizes ?f ?g) [1, 1]" unfolding u by simp
  ultimately have
    "values_i ?f ! sub2ind (size_i ?f) (restrict_tuple (unionVars ?f ?g) [1, 1] (vars_i ?f))
     = values_i ?g ! sub2ind (size_i ?g) (restrict_tuple (unionVars ?f ?g) [1, 1] (vars_i ?g))"
    by blast
  then have "[10, 20] ! sub2ind [2] (restrict_tuple [1, 2] [1, 1] [1])
       = [10, 20, 10, 20::real] ! sub2ind [2, 2] (restrict_tuple [1, 2] [1, 1] [1, 2])"
    unfolding u by simp
  with h1 h2 run show ?thesis by blast
qed

section \<open>The scenarios of the specification\<close>

text \<open>Scenario 1: sizes \<open>(2,3,4)\<close> and subindices \<open>(1,2,3)\<close> give the linear index 23.\<close>

lemma scenario_sub2ind: "sub2ind [2, 3, 4] [1, 2, 3] = 23"
  by simp

text \<open>Scenario 2: \<open>f\<close> over variable 1 with values 10, 20, expanded by variable 2.\<close>

lemma scenario_expand:
  "expand 32 [1 \<mapsto> 2, 2 \<mapsto> 2] \<lparr>vars_i = [1], size_i = [2], values_i = [10, 20]\<rparr> [2]
     = Inr \<lparr>vars_i = [1, 2], size_i = [2, 2], values_i = [10, 20, 10, 20]\<rparr>"
  by code_simp

text \<open>Scenario 3: \<open>g(i,j) = i + 10 j\<close> over variables 1, 2, max-marginalised onto variable 1.\<close>

lemma scenario_maxMarginal:
  "maxMarginal \<lparr>vars_i = [1, 2], size_i = [2, 3], values_i = [0, 1, 10, 11, 20, 21]\<rparr>
      \<lparr>vars_i = [1], size_i = [2], values_i = [0, 0]\<rparr>
     = (None, \<lparr>vars_i = [1], size_i = [2], values_i = [20, 21]\<rparr>)"
  by code_simp

text \<open>Scenario 4: the same \<open>g\<close>, conditioned on variable 2 having the value 1.\<close>

lemma scenario_condition:
  "condition 32 [1 \<mapsto> 2, 2 \<mapsto> 3]
      \<lparr>vars_i = [1, 2], size_i = [2, 3], values_i = [0, 1, 10, 11, 20, 21]\<rparr> [2] [1]
     = Inr \<lparr>vars_i = [1], size_i = [2], values_i = [10, 11]\<rparr>"
  by code_simp

end
